theory Spec2Isabelle
  imports Complex_Main "HOL-Library.AList" "HOL-Library.Log_Nat" "HOL-Library.Char_ord" "HOL-Library.List_Lexorder"
begin

section \<open>Values and errors\<close>

text \<open>
  The exceptions the scripts can raise. \<open>NetworkXError\<close> is what \<open>G.neighbors(n)\<close>
  raises for a node that is not in the graph, \<open>KeyError\<close> a missing dictionary key,
  \<open>ZeroDivisionError\<close> the division in \<open>analyze_graph\<close>, \<open>OverflowError\<close> the
  conversion of an integer that is too large for a float.
\<close>

datatype error = NetworkXError | KeyError | ZeroDivisionError | OverflowError

text \<open>
  A Python float that is not a NaN: a rational (every binary64 number is one) or
  \<open>float("inf")\<close>. The scripts only ever add non-negative numbers, so the negative
  infinity and the sign of zero are left out.
\<close>

datatype pyfloat = Fin rat | PInf

section \<open>The graph store\<close>

text \<open>
  The attribute dictionary of an edge: \<open>kind\<close>, \<open>speed_mbps\<close> and, once
  \<open>add_edge_weights\<close> has run, \<open>weight\<close>. A key that may be missing is an option.
\<close>

record edge_data =
  kind :: "string option"
  speed_mbps :: "int option"
  weight :: "pyfloat option"

text \<open>
  \<open>nx.Graph\<close>: the node dictionary (node to its \<open>type\<close> attribute) and the adjacency
  dictionary (node to the dictionary of its neighbours), both in insertion order, as
  Python dictionaries are.
\<close>

record 'a graph =
  node :: "('a \<times> string option) list"
  adj :: "('a \<times> ('a \<times> edge_data) list) list"

definition empty_graph :: "'a graph" where
  "empty_graph = \<lparr>node = [], adj = []\<rparr>"

definition has_node :: "'a graph \<Rightarrow> 'a \<Rightarrow> bool" where
  "has_node G n = (n \<in> set (map fst (adj G)))"

definition nodes_of :: "'a graph \<Rightarrow> 'a list" where
  "nodes_of G = map fst (adj G)"

text \<open>\<open>G.add_node(n, type=t)\<close>: a new node gets an empty neighbour dictionary.\<close>

definition add_node :: "'a graph \<Rightarrow> 'a \<times> string option \<Rightarrow> 'a graph" where
  "add_node G nt =
     (case nt of (n, t) \<Rightarrow>
        if has_node G n then G\<lparr>node := AList.update n t (node G)\<rparr>
        else G\<lparr>node := node G @ [(n, t)], adj := adj G @ [(n, [])]\<rparr>)"

definition ensure_node :: "'a graph \<Rightarrow> 'a \<Rightarrow> 'a graph" where
  "ensure_node G n =
     (if has_node G n then G else G\<lparr>node := node G @ [(n, None)], adj := adj G @ [(n, [])]\<rparr>)"

definition set_adj :: "'a graph \<Rightarrow> 'a \<Rightarrow> 'a \<Rightarrow> edge_data \<Rightarrow> 'a graph" where
  "set_adj G u v d =
     G\<lparr>adj := map (\<lambda>(n, nbrs). if n = u then (n, AList.update v d nbrs) else (n, nbrs)) (adj G)\<rparr>"

text \<open>
  \<open>G.add_edge(u, v, **attrs)\<close>: both end points are added when missing, and the
  attributes are stored under \<open>adj[u][v]\<close> and \<open>adj[v][u]\<close>.
\<close>

definition add_edge :: "'a graph \<Rightarrow> 'a \<times> 'a \<times> edge_data \<Rightarrow> 'a graph" where
  "add_edge G e =
     (case e of (u, v, d) \<Rightarrow> set_adj (set_adj (ensure_node (ensure_node G u) v) u v d) v u d)"

definition add_nodes_from :: "'a graph \<Rightarrow> ('a \<times> string option) list \<Rightarrow> 'a graph" where
  "add_nodes_from G ns = foldl add_node G ns"

definition add_edges_from :: "'a graph \<Rightarrow> ('a \<times> 'a \<times> edge_data) list \<Rightarrow> 'a graph" where
  "add_edges_from G es = foldl add_edge G es"

text \<open>\<open>G.neighbors(n)\<close>: the keys of \<open>adj[n]\<close>; a node that is not in the graph raises.\<close>

definition neighbors :: "'a graph \<Rightarrow> 'a \<Rightarrow> error + 'a list" where
  "neighbors G n = (case map_of (adj G) n of None \<Rightarrow> Inl NetworkXError | Some nbrs \<Rightarrow> Inr (map fst nbrs))"

text \<open>
  What networkx keeps true of every graph it builds: no node is listed twice, every
  neighbour is a node, and \<open>v\<close> is a neighbour of \<open>u\<close> exactly when \<open>u\<close> is one of
  \<open>v\<close>, with the same attributes.
\<close>

definition wf_graph :: "'a graph \<Rightarrow> bool" where
  "wf_graph G =
     (distinct (map fst (adj G)) \<and>
      (\<forall>(u, nbrs) \<in> set (adj G).
         distinct (map fst nbrs) \<and>
         (\<forall>(v, d) \<in> set nbrs.
            (case map_of (adj G) v of None \<Rightarrow> False | Some nbrs' \<Rightarrow> map_of nbrs' u = Some d))))"

section \<open>The reference topology\<close>

definition mk_edge :: "string \<Rightarrow> int \<Rightarrow> edge_data" where
  "mk_edge k s = \<lparr>kind = Some k, speed_mbps = Some s, weight = None\<rparr>"

definition topology_nodes :: "(string \<times> string option) list" where
  "topology_nodes =
     [(''ISP'', Some ''internet''),
      (''Router'', Some ''router''),
      (''Switch'', Some ''switch''),
      (''AP_1'', Some ''wifi_ap''),
      (''AP_2'', Some ''wifi_ap''),
      (''NAS'', Some ''server''),
      (''HomeServer'', Some ''server''),
      (''Laptop_1'', Some ''client''),
      (''Laptop_2'', Some ''client''),
      (''PC'', Some ''client''),
      (''Phone_1'', Some ''client''),
      (''Phone_2'', Some ''client''),
      (''TV'', Some ''client''),
      (''Printer'', Some ''client''),
      (''IoT_Hub'', Some ''iot''),
      (''Camera_1'', Some ''iot''),
      (''Camera_2'', Some ''iot'')]"

definition topology_edges :: "(string \<times> string \<times> edge_data) list" where
  "topology_edges =
     [(''ISP'', ''Router'', mk_edge ''wan'' 1000),
      (''Router'', ''Switch'', mk_edge ''ethernet'' 1000),
      (''Switch'', ''AP_1'', mk_edge ''ethernet'' 1000),
      (''Switch'', ''AP_2'', mk_edge ''ethernet'' 1000),
      (''Switch'', ''NAS'', mk_edge ''ethernet'' 1000),
      (''Switch'', ''HomeServer'', mk_edge ''ethernet'' 1000),
      (''Switch'', ''PC'', mk_edge ''ethernet'' 1000),
      (''Switch'', ''Printer'', mk_edge ''ethernet'' 100),
      (''AP_1'', ''Laptop_1'', mk_edge ''wifi'' 600),
      (''AP_1'', ''Phone_1'', mk_edge ''wifi'' 300),
      (''AP_1'', ''TV'', mk_edge ''wifi'' 300),
      (''AP_2'', ''Laptop_2'', mk_edge ''wifi'' 600),
      (''AP_2'', ''Phone_2'', mk_edge ''wifi'' 300),
      (''AP_2'', ''IoT_Hub'', mk_edge ''wifi'' 150),
      (''IoT_Hub'', ''Camera_1'', mk_edge ''wifi'' 50),
      (''IoT_Hub'', ''Camera_2'', mk_edge ''wifi'' 50)]"

text \<open>\<open>build_network_topology\<close> of \<open>task_01_graph.py\<close> and \<open>task_02_graph.py\<close>.\<close>

definition build_network_topology :: "string graph" where
  "build_network_topology = add_edges_from (add_nodes_from empty_graph topology_nodes) topology_edges"

section \<open>Path search\<close>

text \<open>\<open>neighbors_sorted\<close>: \<open>sorted(G.neighbors(node))\<close>.\<close>

definition neighbors_sorted :: "('a::linorder) graph \<Rightarrow> 'a \<Rightarrow> error + 'a list" where
  "neighbors_sorted G n = (case neighbors G n of Inl e \<Rightarrow> Inl e | Inr nbs \<Rightarrow> Inr (sort nbs))"

text \<open>
  The \<open>parent\<close> dictionary: a key is absent (\<open>None\<close>), bound to Python's \<open>None\<close>
  (\<open>Some None\<close>, the start node) or bound to a node.
\<close>

type_synonym 'a parent = "'a \<rightharpoonup> 'a option"

text \<open>
  The \<open>while cur is not None\<close> loop of \<open>reconstruct_path\<close>. It raises \<open>KeyError\<close> at a
  node without an entry and runs forever on a cycle of parent links.
\<close>

partial_function (option) follow :: "'a parent \<Rightarrow> 'a option \<Rightarrow> 'a list \<Rightarrow> (error + 'a list) option" where
  "follow parent cur path =
     (case cur of
        None \<Rightarrow> Some (Inr path)
      | Some c \<Rightarrow>
          (case parent c of
             None \<Rightarrow> Some (Inl KeyError)
           | Some nxt \<Rightarrow> follow parent nxt (path @ [c])))"

declare follow.simps [code]

definition reconstruct_path :: "'a parent \<Rightarrow> 'a \<Rightarrow> 'a \<Rightarrow> (error + 'a list) option" where
  "reconstruct_path parent start goal =
     (if parent goal = None then Some (Inr [])
      else
        (case follow parent (Some goal) [] of
           None \<Rightarrow> None
         | Some (Inl e) \<Rightarrow> Some (Inl e)
         | Some (Inr p) \<Rightarrow>
             (let path = rev p
              in Some (Inr (if path \<noteq> [] \<and> hd path = start then path else [])))))"

text \<open>
  The inner \<open>for nb in ...\<close> loop, the same in both searches: a neighbour without a
  parent entry gets one and is appended to the frontier.
\<close>

fun discover :: "'a \<Rightarrow> 'a list \<Rightarrow> 'a parent \<times> 'a list \<Rightarrow> 'a parent \<times> 'a list" where
  "discover v [] st = st"
| "discover v (nb # nbs) (parent, frontier) =
     (if parent nb = None then discover v nbs (parent(nb \<mapsto> Some v), frontier @ [nb])
      else discover v nbs (parent, frontier))"

text \<open>Every node that occurs in the adjacency dictionary, as a key or as a neighbour.\<close>

definition universe :: "'a graph \<Rightarrow> 'a set" where
  "universe G = set (map fst (adj G)) \<union> (\<Union>(u, nbrs) \<in> set (adj G). set (map fst nbrs))"

lemma finite_universe: "finite (universe G)"
  by (auto simp: universe_def)

lemma neighbors_sorted_universe:
  assumes "neighbors_sorted G v = Inr nbs"
  shows "set nbs \<subseteq> universe G"
proof -
  from assms obtain nbrs where m: "map_of (adj G) v = Some nbrs" and nbs: "nbs = sort (map fst nbrs)"
    by (auto simp: neighbors_sorted_def neighbors_def split: option.splits sum.splits)
  from m have "(v, nbrs) \<in> set (adj G)" by (rule map_of_SomeD)
  then show ?thesis unfolding nbs universe_def by force
qed

lemma discover_measure:
  assumes "finite U" and "set nbs \<subseteq> U" and "discover v nbs (p, fr) = (p', fr')"
  shows "2 * card (U - dom p') + length fr' \<le> 2 * card (U - dom p) + length fr"
  using assms(2,3)
proof (induction nbs arbitrary: p fr)
  case Nil
  then show ?case by simp
next
  case (Cons nb nbs)
  show ?case
  proof (cases "p nb = None")
    case True
    with Cons.prems have d: "discover v nbs (p(nb \<mapsto> Some v), fr @ [nb]) = (p', fr')" by simp
    from Cons.prems have sub: "set nbs \<subseteq> U" and nbU: "nb \<in> U" by auto
    from Cons.IH [OF sub d]
    have le: "2 * card (U - dom (p(nb \<mapsto> Some v))) + length (fr @ [nb]) \<le> 2 * card (U - dom p) + length fr
              \<Longrightarrow> ?thesis" by linarith
    have nbin: "nb \<in> U - dom p" using True nbU by (auto simp: dom_def)
    have eq: "U - dom (p(nb \<mapsto> Some v)) = (U - dom p) - {nb}" by auto
    have "card ((U - dom p) - {nb}) < card (U - dom p)"
      using nbin assms(1) by (intro card_Diff1_less) auto
    then have "2 * card (U - dom (p(nb \<mapsto> Some v))) + length (fr @ [nb]) \<le> 2 * card (U - dom p) + length fr"
      unfolding eq by simp
    then show ?thesis by (rule le)
  next
    case False
    with Cons.prems have d: "discover v nbs (p, fr) = (p', fr')" by auto
    from Cons.prems have sub: "set nbs \<subseteq> U" by auto
    from Cons.IH [OF sub d] show ?thesis .
  qed
qed

text \<open>
  The \<open>while q\<close> loop of \<open>bfs_path\<close>: \<open>q.popleft()\<close> takes the head of the queue. The
  result is the parent dictionary and the visit order at the end of the loop.
\<close>

function bfs_loop :: "('a::linorder) graph \<Rightarrow> 'a \<Rightarrow> 'a list \<Rightarrow> 'a parent \<Rightarrow> 'a list \<Rightarrow> error + ('a parent \<times> 'a list)" where
  "bfs_loop G goal [] parent visit_order = Inr (parent, visit_order)"
| "bfs_loop G goal (v # q) parent visit_order =
     (if v = goal then Inr (parent, visit_order @ [v])
      else
        (case neighbors_sorted G v of
           Inl e \<Rightarrow> Inl e
         | Inr nbs \<Rightarrow>
             (case discover v nbs (parent, q) of
                (parent', q') \<Rightarrow> bfs_loop G goal q' parent' (visit_order @ [v]))))"
  by pat_completeness auto

termination
  apply (relation "measure (\<lambda>(G, goal, q, parent, vo). 2 * card (universe G - dom parent) + length q)")
   apply simp
  subgoal for G goal v q parent visit_order nbs parent' q'
    using discover_measure [OF finite_universe neighbors_sorted_universe, of G v nbs v parent q parent' q']
    by simp
  done

text \<open>
  The \<open>while stack\<close> loop of \<open>dfs_path\<close>: \<open>stack.pop()\<close> takes the last element, and the
  neighbours are walked in reversed order.
\<close>

function dfs_loop :: "('a::linorder) graph \<Rightarrow> 'a \<Rightarrow> 'a list \<Rightarrow> 'a parent \<Rightarrow> 'a list \<Rightarrow> error + ('a parent \<times> 'a list)" where
  "dfs_loop G goal stack parent visit_order =
     (if stack = [] then Inr (parent, visit_order)
      else
        (let v = last stack in
         if v = goal then Inr (parent, visit_order @ [v])
         else
           (case neighbors_sorted G v of
              Inl e \<Rightarrow> Inl e
            | Inr nbs \<Rightarrow>
                (case discover v (rev nbs) (parent, butlast stack) of
                   (parent', stack') \<Rightarrow> dfs_loop G goal stack' parent' (visit_order @ [v])))))"
  by pat_completeness auto

termination
  apply (relation "measure (\<lambda>(G, goal, st, parent, vo). 2 * card (universe G - dom parent) + length st)")
   apply simp
  subgoal for G goal stack parent visit_order v nbs parent' stack'
    using discover_measure [OF finite_universe, of "rev nbs" G v parent "butlast stack" parent' stack']
      neighbors_sorted_universe [of G v nbs]
    by (cases stack rule: rev_cases) auto
  done

text \<open>The end of both searches: the path is rebuilt from the parent dictionary.\<close>

definition finish :: "'a \<Rightarrow> 'a \<Rightarrow> error + ('a parent \<times> 'a list) \<Rightarrow> (error + 'a list \<times> 'a list) option" where
  "finish start goal r =
     (case r of
        Inl e \<Rightarrow> Some (Inl e)
      | Inr (parent, visit_order) \<Rightarrow>
          (case reconstruct_path parent start goal of
             None \<Rightarrow> None
           | Some (Inl e) \<Rightarrow> Some (Inl e)
           | Some (Inr path) \<Rightarrow> Some (Inr (path, visit_order))))"

definition bfs_path :: "('a::linorder) graph \<Rightarrow> 'a \<Rightarrow> 'a \<Rightarrow> (error + 'a list \<times> 'a list) option" where
  "bfs_path G start goal = finish start goal (bfs_loop G goal [start] [start \<mapsto> None] [])"

definition dfs_path :: "('a::linorder) graph \<Rightarrow> 'a \<Rightarrow> 'a \<Rightarrow> (error + 'a list \<times> 'a list) option" where
  "dfs_path G start goal = finish start goal (dfs_loop G goal [start] [start \<mapsto> None] [])"

text \<open>The edge count that \<open>print_compare\<close> reports: \<open>max(0, len(path) - 1)\<close>.\<close>

definition path_edge_count :: "'a list \<Rightarrow> int" where
  "path_edge_count path = max 0 (int (length path) - 1)"

section \<open>Structural metrics\<close>

text \<open>
  \<open>G.degree()\<close>: the number of neighbour entries of a node, a self-loop counted twice.
  \<open>G.number_of_nodes()\<close> and \<open>G.number_of_edges()\<close> (half the sum of the degrees).
\<close>

definition degrees :: "'a graph \<Rightarrow> ('a \<times> nat) list" where
  "degrees G = map (\<lambda>(n, nbrs). (n, length nbrs + (if n \<in> set (map fst nbrs) then 1 else 0))) (adj G)"

definition number_of_nodes :: "'a graph \<Rightarrow> nat" where
  "number_of_nodes G = length (adj G)"

definition number_of_edges :: "'a graph \<Rightarrow> nat" where
  "number_of_edges G = sum_list (map snd (degrees G)) div 2"

section \<open>Floats\<close>

text \<open>
  Rounding a rational to the nearest binary64 number, ties to the even significand:
  a positive \<open>q\<close> with \<open>2 ^ e \<le> q < 2 ^ (e + 1)\<close> is rounded to a multiple of
  \<open>2 ^ (e - 52)\<close>, and of \<open>2 ^ - 1074\<close> in the subnormal range.
\<close>

definition pow2 :: "int \<Rightarrow> rat" where
  "pow2 e = (if 0 \<le> e then 2 ^ nat e else 1 / 2 ^ nat (- e))"

text \<open>
  The exponent \<open>e\<close> with \<open>2 ^ e \<le> q < 2 ^ (e + 1)\<close>, for a positive \<open>q\<close>, from the number
  of bits of an integer (\<open>bitlen\<close>).
\<close>

definition ilog2 :: "rat \<Rightarrow> int" where
  "ilog2 q = (if 1 \<le> q then bitlen \<lfloor>q\<rfloor> - 1 else - bitlen (\<lceil>1 / q\<rceil> - 1))"

definition rhe :: "rat \<Rightarrow> int" where
  "rhe q =
     (let f = \<lfloor>q\<rfloor>; r = q - of_int f
      in if r < 1 / 2 then f else if 1 / 2 < r then f + 1 else if even f then f else f + 1)"

definition round_pos :: "rat \<Rightarrow> rat" where
  "round_pos q = (let p = max (ilog2 q - 52) (- 1074) in of_int (rhe (q / pow2 p)) * pow2 p)"

definition fround :: "rat \<Rightarrow> rat" where
  "fround q = (if q = 0 then 0 else if 0 < q then round_pos q else - round_pos (- q))"

definition max_float :: rat where
  "max_float = (2 ^ 53 - 1) * 2 ^ 971"

text \<open>
  The float a non-negative exact result becomes: a result that rounds above the largest
  finite number overflows to infinity.
\<close>

definition to_float :: "rat \<Rightarrow> pyfloat" where
  "to_float q = (let r = fround q in if max_float < r then PInf else Fin r)"

text \<open>\<open>x + y\<close>, \<open>x < y\<close> and \<open>1.0 / y\<close> on floats.\<close>

fun fadd :: "pyfloat \<Rightarrow> pyfloat \<Rightarrow> pyfloat" where
  "fadd (Fin a) (Fin b) = to_float (a + b)"
| "fadd _ _ = PInf"

fun fless :: "pyfloat \<Rightarrow> pyfloat \<Rightarrow> bool" where
  "fless (Fin a) (Fin b) = (a < b)"
| "fless (Fin a) PInf = True"
| "fless PInf _ = False"

fun one_over :: "pyfloat \<Rightarrow> error + pyfloat" where
  "one_over (Fin b) = (if b = 0 then Inl ZeroDivisionError else Inr (to_float (1 / b)))"
| "one_over PInf = Inr (Fin 0)"

text \<open>
  The conversion of a Python integer to a float: rounded to the nearest, and
  \<open>OverflowError\<close> when the integer is too large.
\<close>

definition float_of_int :: "int \<Rightarrow> error + pyfloat" where
  "float_of_int n = (let r = fround (of_int n) in if max_float < \<bar>r\<bar> then Inl OverflowError else Inr (Fin r))"

text \<open>\<open>a / b\<close> on Python integers: the exact quotient, rounded once.\<close>

definition int_true_div :: "int \<Rightarrow> int \<Rightarrow> error + pyfloat" where
  "int_true_div a b =
     (if b = 0 then Inl ZeroDivisionError
      else (let r = fround (of_int a / of_int b) in if max_float < \<bar>r\<bar> then Inl OverflowError else Inr (Fin r)))"

text \<open>
  The first statements of \<open>analyze_graph\<close>, up to the average degree:
  \<open>sum(degrees.values()) / n\<close>.
\<close>

definition avg_degree :: "'a graph \<Rightarrow> error + pyfloat" where
  "avg_degree G =
     (let n = number_of_nodes G; degs = degrees G
      in int_true_div (int (sum_list (map snd degs))) (int n))"

section \<open>Edge weights\<close>

text \<open>
  The body of the loop of \<open>add_edge_weights\<close>: the speed, 1 when the key is missing,
  is raised to at least 1, and the weight is \<open>1.0 / speed\<close>.
\<close>

definition set_weight :: "edge_data \<Rightarrow> error + edge_data" where
  "set_weight d =
     (let speed = (case speed_mbps d of None \<Rightarrow> 1 | Some s \<Rightarrow> s);
          speed = max speed 1
      in case float_of_int speed of
           Inl e \<Rightarrow> Inl e
         | Inr f \<Rightarrow> (case one_over f of Inl e \<Rightarrow> Inl e | Inr w \<Rightarrow> Inr (d\<lparr>weight := Some w\<rparr>)))"

fun weights_row :: "('a \<times> edge_data) list \<Rightarrow> error + ('a \<times> edge_data) list" where
  "weights_row [] = Inr []"
| "weights_row ((v, d) # rest) =
     (case set_weight d of
        Inl e \<Rightarrow> Inl e
      | Inr d' \<Rightarrow> (case weights_row rest of Inl e \<Rightarrow> Inl e | Inr rest' \<Rightarrow> Inr ((v, d') # rest')))"

fun weights_rows :: "('a \<times> ('a \<times> edge_data) list) list \<Rightarrow> error + ('a \<times> ('a \<times> edge_data) list) list" where
  "weights_rows [] = Inr []"
| "weights_rows ((u, nbrs) # rest) =
     (case weights_row nbrs of
        Inl e \<Rightarrow> Inl e
      | Inr nbrs' \<Rightarrow> (case weights_rows rest of Inl e \<Rightarrow> Inl e | Inr rest' \<Rightarrow> Inr ((u, nbrs') # rest')))"

text \<open>
  \<open>add_edge_weights\<close>. The attribute dictionary of an edge is shared by its two
  adjacency entries, so the weight appears under both; an exception leaves the load
  without a graph.
\<close>

definition add_edge_weights :: "'a graph \<Rightarrow> error + 'a graph" where
  "add_edge_weights G = (case weights_rows (adj G) of Inl e \<Rightarrow> Inl e | Inr rows \<Rightarrow> Inr (G\<lparr>adj := rows\<rparr>))"

text \<open>\<open>build_network_topology\<close> of \<open>task_03_graph.py\<close>, which adds the weights.\<close>

definition build_weighted_topology :: "error + string graph" where
  "build_weighted_topology = add_edge_weights build_network_topology"

section \<open>Shortest distances\<close>

text \<open>
  The priority queue. \<open>heapq\<close> is a module of the standard library; it is modelled by
  what it promises: the list holds the pushed items, and \<open>heappop\<close> takes out the
  smallest one. The items are tuples \<open>(distance, node)\<close>, which Python compares by the
  distance first and by the node name among equal distances.
\<close>

type_synonym 'a entry = "pyfloat \<times> 'a"

definition entry_le :: "('a::linorder) entry \<Rightarrow> 'a entry \<Rightarrow> bool" where
  "entry_le x y = (fless (fst x) (fst y) \<or> (fst x = fst y \<and> snd x \<le> snd y))"

definition heappush :: "'a entry list \<Rightarrow> 'a entry \<Rightarrow> 'a entry list" where
  "heappush pq x = pq @ [x]"

fun heap_min :: "('a::linorder) entry \<Rightarrow> 'a entry list \<Rightarrow> 'a entry" where
  "heap_min m [] = m"
| "heap_min m (x # xs) = heap_min (if entry_le m x then m else x) xs"

definition heappop :: "('a::linorder) entry list \<Rightarrow> 'a entry \<times> 'a entry list" where
  "heappop pq = (let m = heap_min (hd pq) (tl pq) in (m, remove1 m pq))"

text \<open>The \<open>dist\<close> dictionary (\<open>dists\<close> below).\<close>

type_synonym 'a dist = "'a \<rightharpoonup> pyfloat"

text \<open>
  The \<open>for v in G.neighbors(u)\<close> loop of \<open>dijkstra_from_source\<close>, over the entries
  \<open>(v, G.edges[u, v])\<close> of the adjacency dictionary of \<open>u\<close>; a missing \<open>weight\<close> counts
  as \<open>1.0\<close>.
\<close>

fun relax :: "pyfloat \<Rightarrow> ('a \<times> edge_data) list \<Rightarrow> 'a dist \<times> 'a entry list \<Rightarrow> error + 'a dist \<times> 'a entry list" where
  "relax cur_dist [] st = Inr st"
| "relax cur_dist ((v, d) # rest) (dists, pq) =
     (let w = (case weight d of None \<Rightarrow> Fin 1 | Some x \<Rightarrow> x);
          nd = fadd cur_dist w
      in case dists v of
           None \<Rightarrow> Inl KeyError
         | Some dv \<Rightarrow>
             if fless nd dv then relax cur_dist rest (dists(v \<mapsto> nd), heappush pq (nd, v))
             else relax cur_dist rest (dists, pq))"

text \<open>The \<open>while pq\<close> loop; an entry above the recorded distance is skipped.\<close>

partial_function (option) dijkstra_loop :: "('a::linorder) graph \<Rightarrow> 'a dist \<Rightarrow> 'a entry list \<Rightarrow> (error + 'a dist) option" where
  "dijkstra_loop G dists pq =
     (if pq = [] then Some (Inr dists)
      else
        (case heappop pq of
           ((cur_dist, u), pq') \<Rightarrow>
             (case dists u of
                None \<Rightarrow> Some (Inl KeyError)
              | Some du \<Rightarrow>
                  if fless du cur_dist then dijkstra_loop G dists pq'
                  else
                    (case map_of (adj G) u of
                       None \<Rightarrow> Some (Inl NetworkXError)
                     | Some nbrs \<Rightarrow>
                         (case relax cur_dist nbrs (dists, pq') of
                            Inl e \<Rightarrow> Some (Inl e)
                          | Inr (dists', pq'') \<Rightarrow> dijkstra_loop G dists' pq'')))))"

definition dijkstra_from_source :: "('a::linorder) graph \<Rightarrow> 'a \<Rightarrow> (error + 'a dist) option" where
  "dijkstra_from_source G start =
     dijkstra_loop G ((map_of (map (\<lambda>n. (n, PInf)) (nodes_of G)))(start \<mapsto> Fin 0)) [(Fin 0, start)]"

text \<open>\<open>all_pairs_shortest_distances\<close>: one run per node, in the order of \<open>G.nodes()\<close>.\<close>

fun all_pairs_from :: "('a::linorder) graph \<Rightarrow> 'a list \<Rightarrow> (error + ('a \<times> 'a dist) list) option" where
  "all_pairs_from G [] = Some (Inr [])"
| "all_pairs_from G (start # rest) =
     (case dijkstra_from_source G start of
        None \<Rightarrow> None
      | Some (Inl e) \<Rightarrow> Some (Inl e)
      | Some (Inr d) \<Rightarrow>
          (case all_pairs_from G rest of
             None \<Rightarrow> None
           | Some (Inl e) \<Rightarrow> Some (Inl e)
           | Some (Inr result) \<Rightarrow> Some (Inr ((start, d) # result))))"

definition all_pairs_shortest_distances :: "('a::linorder) graph \<Rightarrow> (error + ('a \<times> 'a dist) list) option" where
  "all_pairs_shortest_distances G = all_pairs_from G (nodes_of G)"

section \<open>Walks, reachability and the loop invariants\<close>

text \<open>\<open>v\<close> is listed as a neighbour of \<open>u\<close>.\<close>

definition edge :: "'a graph \<Rightarrow> 'a \<Rightarrow> 'a \<Rightarrow> bool" where
  "edge G u v = (case map_of (adj G) u of None \<Rightarrow> False | Some nbrs \<Rightarrow> v \<in> set (map fst nbrs))"

text \<open>A walk: a non-empty sequence of nodes, each a neighbour of the one before.\<close>

fun is_walk :: "'a graph \<Rightarrow> 'a list \<Rightarrow> bool" where
  "is_walk G [] = False"
| "is_walk G [x] = True"
| "is_walk G (x # y # rest) = (edge G x y \<and> is_walk G (y # rest))"

definition walk_from_to :: "'a graph \<Rightarrow> 'a \<Rightarrow> 'a \<Rightarrow> 'a list \<Rightarrow> bool" where
  "walk_from_to G s x p = (is_walk G p \<and> hd p = s \<and> last p = x)"

definition reach_in :: "'a graph \<Rightarrow> 'a \<Rightarrow> 'a \<Rightarrow> nat \<Rightarrow> bool" where
  "reach_in G s x n = (\<exists>p. walk_from_to G s x p \<and> length p = Suc n)"

definition reachable :: "'a graph \<Rightarrow> 'a \<Rightarrow> 'a \<Rightarrow> bool" where
  "reachable G s x = (\<exists>p. walk_from_to G s x p)"

text \<open>The least number of edges of a walk from \<open>s\<close> to \<open>x\<close>.\<close>

definition hops :: "'a graph \<Rightarrow> 'a \<Rightarrow> 'a \<Rightarrow> nat" where
  "hops G s x = (LEAST n. reach_in G s x n)"

text \<open>
  \<open>chain parent x xs\<close>: following the parent links from \<open>x\<close> ends at a node bound to
  \<open>None\<close>, and \<open>xs\<close> lists the nodes met, from that node to \<open>x\<close>.
\<close>

inductive chain :: "'a parent \<Rightarrow> 'a \<Rightarrow> 'a list \<Rightarrow> bool" where
  chain_root: "parent x = Some None \<Longrightarrow> chain parent x [x]"
| chain_step: "parent x = Some (Some p) \<Longrightarrow> chain parent p xs \<Longrightarrow> chain parent x (xs @ [x])"

text \<open>
  What both searches keep true between two rounds of their loop, for the frontier
  \<open>fr\<close> (the queue or the stack), the parent dictionary and the visit order.
\<close>

definition search_inv :: "'a graph \<Rightarrow> 'a \<Rightarrow> 'a \<Rightarrow> 'a list \<Rightarrow> 'a parent \<Rightarrow> 'a list \<Rightarrow> bool" where
  "search_inv G start goal fr par vo =
     (distinct (vo @ fr) \<and>
      dom par = set vo \<union> set fr \<and>
      par start = Some None \<and>
      (\<forall>x. par x = Some None \<longrightarrow> x = start) \<and>
      (\<forall>x p. par x = Some (Some p) \<longrightarrow> p \<in> set vo \<and> edge G p x) \<and>
      set fr \<subseteq> set (nodes_of G) \<and>
      (if vo = [] then set fr = {start} else hd vo = start) \<and>
      (\<forall>x \<in> dom par. \<exists>xs. chain par x xs) \<and>
      goal \<notin> set vo \<and>
      (\<forall>u \<in> set vo. \<forall>n. edge G u n \<longrightarrow> par n \<noteq> None))"

text \<open>The state in which a search leaves its loop: the frontier is empty, or the goal was just taken from it.\<close>

definition search_done :: "'a graph \<Rightarrow> 'a \<Rightarrow> 'a \<Rightarrow> 'a parent \<Rightarrow> 'a list \<Rightarrow> bool" where
  "search_done G start goal par vo =
     (search_inv G start goal [] par vo \<or>
      (\<exists>fr vo'. vo = vo' @ [goal] \<and> goal \<in> set fr \<and> search_inv G start goal fr par vo'))"

text \<open>
  What the breadth-first search keeps true in addition: the parent links give
  shortest walks, the queue is ordered by the distance from the start and spans at
  most two levels, and every node that is no farther than the head of the queue has
  been discovered.
\<close>

definition bfs_inv :: "'a graph \<Rightarrow> 'a \<Rightarrow> 'a list \<Rightarrow> 'a parent \<Rightarrow> 'a list \<Rightarrow> bool" where
  "bfs_inv G start q par vo =
     ((\<forall>x xs. chain par x xs \<longrightarrow> length xs = Suc (hops G start x)) \<and>
      sorted (map (hops G start) q) \<and>
      (\<forall>x \<in> set q. hops G start x \<le> Suc (hops G start (hd q))) \<and>
      (\<forall>u \<in> set vo. \<forall>x \<in> set q. hops G start u \<le> hops G start x) \<and>
      (\<forall>y. q \<noteq> [] \<and> reachable G start y \<and> hops G start y \<le> hops G start (hd q) \<longrightarrow> par y \<noteq> None))"

text \<open>A small graph in two parts: \<open>A\<close> and \<open>B\<close> are linked, \<open>C\<close> stands alone.\<close>

definition island_graph :: "string graph" where
  "island_graph =
     add_edges_from (add_nodes_from empty_graph [(''A'', None), (''B'', None), (''C'', None)])
       [(''A'', ''B'', mk_edge ''wifi'' 100)]"

section \<open>Weighted walks and the invariant of the shortest-distance loop\<close>

text \<open>\<open>x <= y\<close> on floats.\<close>

definition fle :: "pyfloat \<Rightarrow> pyfloat \<Rightarrow> bool" where
  "fle x y = (\<not> fless y x)"

text \<open>A float as the scripts meet it: a non-negative binary64 number, or infinity.\<close>

fun is_float :: "pyfloat \<Rightarrow> bool" where
  "is_float (Fin r) = (0 \<le> r \<and> fround r = r \<and> r \<le> max_float)"
| "is_float PInf = True"

text \<open>The weight that \<open>dijkstra_from_source\<close> reads from an edge: \<open>1.0\<close> when there is none.\<close>

definition wt :: "edge_data \<Rightarrow> pyfloat" where
  "wt d = (case weight d of None \<Rightarrow> Fin 1 | Some x \<Rightarrow> x)"

text \<open>
  A weight as \<open>add_edge_weights\<close> derives it, \<open>1.0 / speed\<close> with a speed of at least 1:
  a positive float that is at most \<open>1.0\<close>.
\<close>

fun unit_weight :: "pyfloat \<Rightarrow> bool" where
  "unit_weight (Fin r) = (0 < r \<and> r \<le> 1 \<and> fround r = r)"
| "unit_weight PInf = False"

definition weights_ok :: "'a graph \<Rightarrow> bool" where
  "weights_ok G = (\<forall>(u, nbrs) \<in> set (adj G). \<forall>(v, d) \<in> set nbrs. unit_weight (wt d))"

text \<open>Any positive weight, which for a float may be huge.\<close>

fun positive_weight :: "pyfloat \<Rightarrow> bool" where
  "positive_weight (Fin r) = (0 < r \<and> fround r = r \<and> r \<le> max_float)"
| "positive_weight PInf = False"

definition weights_positive :: "'a graph \<Rightarrow> bool" where
  "weights_positive G = (\<forall>(u, nbrs) \<in> set (adj G). \<forall>(v, d) \<in> set nbrs. positive_weight (wt d))"

definition edge_weight :: "'a graph \<Rightarrow> 'a \<Rightarrow> 'a \<Rightarrow> pyfloat" where
  "edge_weight G u v =
     (case map_of (adj G) u of
        None \<Rightarrow> PInf
      | Some nbrs \<Rightarrow> (case map_of nbrs v of None \<Rightarrow> PInf | Some d \<Rightarrow> wt d))"

text \<open>
  The weight of a walk, added up in float arithmetic from its first node on:
  \<open>((0.0 + w1) + w2) + ...\<close>, each sum rounded.
\<close>

fun accumulate :: "'a graph \<Rightarrow> pyfloat \<Rightarrow> 'a list \<Rightarrow> pyfloat" where
  "accumulate G c [] = c"
| "accumulate G c [x] = c"
| "accumulate G c (x # y # rest) = accumulate G (fadd c (edge_weight G x y)) (y # rest)"

definition walk_cost :: "'a graph \<Rightarrow> 'a list \<Rightarrow> pyfloat" where
  "walk_cost G p = accumulate G (Fin 0) p"

text \<open>What one run of the inner loop of \<open>dijkstra_from_source\<close> does to \<open>dist\<close> and to the queue.\<close>

definition relaxed :: "pyfloat \<Rightarrow> ('a \<times> edge_data) list \<Rightarrow> 'a dist \<Rightarrow> 'a dist" where
  "relaxed c nbrs dists =
     (\<lambda>x. case map_of nbrs x of
            None \<Rightarrow> dists x
          | Some d \<Rightarrow>
              (case dists x of
                 None \<Rightarrow> None
               | Some dx \<Rightarrow> if fless (fadd c (wt d)) dx then Some (fadd c (wt d)) else Some dx))"

definition pushed :: "pyfloat \<Rightarrow> ('a \<times> edge_data) list \<Rightarrow> 'a dist \<Rightarrow> 'a entry list" where
  "pushed c nbrs dists =
     map (\<lambda>(v, d). (fadd c (wt d), v))
       (filter (\<lambda>(v, d). case dists v of None \<Rightarrow> False | Some dv \<Rightarrow> fless (fadd c (wt d)) dv) nbrs)"

text \<open>
  The nodes that are done: their distance is finite and the queue no longer holds the
  entry with that distance.
\<close>

definition settled :: "'a dist \<Rightarrow> 'a entry list \<Rightarrow> 'a set" where
  "settled dists pq = {x. \<exists>d. dists x = Some d \<and> d \<noteq> PInf \<and> (d, x) \<notin> set pq}"

definition dijkstra_inv :: "'a graph \<Rightarrow> 'a \<Rightarrow> 'a dist \<Rightarrow> 'a entry list \<Rightarrow> bool" where
  "dijkstra_inv G start dists pq =
     (dom dists = set (nodes_of G) \<and>
      dists start = Some (Fin 0) \<and>
      (\<forall>x d. dists x = Some d \<longrightarrow> is_float d) \<and>
      (\<forall>(d, x) \<in> set pq. d \<noteq> PInf \<and> is_float d \<and> (\<exists>dx. dists x = Some dx \<and> fle dx d)) \<and>
      (\<forall>x d. dists x = Some d \<and> d \<noteq> PInf \<longrightarrow> (\<exists>p. walk_from_to G start x p \<and> walk_cost G p = d)) \<and>
      (\<forall>u \<in> settled dists pq. \<forall>du. dists u = Some du \<longrightarrow>
         (\<forall>v. edge G u v \<longrightarrow> (\<exists>dv. dists v = Some dv \<and> fle dv (fadd du (edge_weight G u v))))) \<and>
      (\<forall>u \<in> settled dists pq. \<forall>du. dists u = Some du \<longrightarrow> (\<forall>(d, x) \<in> set pq. fle du d)) \<and>
      distinct pq)"

text \<open>\<open>dist[x]\<close> in the dictionary that a run of \<open>dijkstra_from_source\<close> returns.\<close>

definition distance_of :: "(error + 'a dist) option \<Rightarrow> 'a \<Rightarrow> pyfloat option" where
  "distance_of r x = (case r of Some (Inr d) \<Rightarrow> d x | _ \<Rightarrow> None)"

text \<open>\<open>dist[a][b]\<close> in the table that \<open>all_pairs_shortest_distances\<close> returns.\<close>

definition table_lookup :: "(error + ('a \<times> 'a dist) list) option \<Rightarrow> 'a \<Rightarrow> 'a \<Rightarrow> pyfloat option" where
  "table_lookup r a b =
     (case r of
        Some (Inr table) \<Rightarrow> (case map_of table a of None \<Rightarrow> None | Some d \<Rightarrow> d b)
      | _ \<Rightarrow> None)"

text \<open>
  Two small weighted graphs. In \<open>line_graph\<close> the nodes \<open>A\<close>, \<open>B\<close>, \<open>C\<close>, \<open>D\<close> are linked
  in a row, with the speeds 1, 1 and 3, and \<open>line_weighted\<close> is the graph that its load
  yields; \<open>heavy_graph\<close> links \<open>A\<close>, \<open>B\<close>, \<open>C\<close> in a row by two edges of weight
  \<open>2 ^ 1023\<close>.
\<close>

definition line_graph :: "error + string graph" where
  "line_graph =
     add_edge_weights
       (add_edges_from empty_graph
          [(''A'', ''B'', mk_edge ''ethernet'' 1),
           (''B'', ''C'', mk_edge ''ethernet'' 1),
           (''C'', ''D'', mk_edge ''wifi'' 3)])"

definition line_weighted :: "string graph" where
  "line_weighted =
     \<lparr>node = [(''A'', None), (''B'', None), (''C'', None), (''D'', None)],
      adj = [(''A'', [(''B'', \<lparr>kind = Some ''ethernet'', speed_mbps = Some 1, weight = Some (Fin 1)\<rparr>)]),
             (''B'', [(''A'', \<lparr>kind = Some ''ethernet'', speed_mbps = Some 1, weight = Some (Fin 1)\<rparr>),
                      (''C'', \<lparr>kind = Some ''ethernet'', speed_mbps = Some 1, weight = Some (Fin 1)\<rparr>)]),
             (''C'', [(''B'', \<lparr>kind = Some ''ethernet'', speed_mbps = Some 1, weight = Some (Fin 1)\<rparr>),
                      (''D'', \<lparr>kind = Some ''wifi'', speed_mbps = Some 3,
                               weight = Some (Fin (6004799503160661 / 18014398509481984))\<rparr>)]),
             (''D'', [(''C'', \<lparr>kind = Some ''wifi'', speed_mbps = Some 3,
                               weight = Some (Fin (6004799503160661 / 18014398509481984))\<rparr>)])]\<rparr>"

definition heavy_weight :: pyfloat where
  "heavy_weight = Fin (2 ^ 1023)"

definition heavy_edge :: edge_data where
  "heavy_edge = \<lparr>kind = None, speed_mbps = None, weight = Some heavy_weight\<rparr>"

definition heavy_graph :: "string graph" where
  "heavy_graph = add_edges_from empty_graph [(''A'', ''B'', heavy_edge), (''B'', ''C'', heavy_edge)]"

section \<open>The weighted graph that the load produces\<close>

text \<open>
  What \<open>add_edge_weights\<close> is to compute, stated apart from its loop: the speed of an
  edge after \<open>max(speed, 1)\<close>, the weight \<open>1.0 / speed\<close> it leads to, and the graph
  in which every adjacency entry carries that weight. The speeds are in range when none
  is too large for a float.
\<close>

definition clamped_speed :: "edge_data \<Rightarrow> int" where
  "clamped_speed d = max (case speed_mbps d of None \<Rightarrow> 1 | Some s \<Rightarrow> s) 1"

definition derived_weight :: "edge_data \<Rightarrow> pyfloat" where
  "derived_weight d = to_float (1 / fround (of_int (clamped_speed d)))"

definition with_weights :: "'a graph \<Rightarrow> 'a graph" where
  "with_weights G =
     G\<lparr>adj := map (\<lambda>(u, nbrs). (u, map (\<lambda>(v, d). (v, d\<lparr>weight := Some (derived_weight d)\<rparr>)) nbrs)) (adj G)\<rparr>"

definition speeds_in_range :: "'a graph \<Rightarrow> bool" where
  "speeds_in_range G =
     (\<forall>(u, nbrs) \<in> set (adj G). \<forall>(v, d) \<in> set nbrs. of_int (clamped_speed d) \<le> max_float)"

text \<open>A row of four nodes with the speeds 0, \<open>- 5\<close> and 3.\<close>

definition mixed_graph :: "string graph" where
  "mixed_graph =
     add_edges_from empty_graph
       [(''A'', ''B'', mk_edge ''ethernet'' 0),
        (''B'', ''C'', mk_edge ''wifi'' (- 5)),
        (''C'', ''D'', mk_edge ''wifi'' 3)]"

section \<open>Path search: first facts\<close>

lemma follow_start: "follow [s \<mapsto> None] (Some s) [] = Some (Inr [s])"
  by (simp add: follow.simps)

lemma reconstruct_start: "reconstruct_path [s \<mapsto> None] s s = Some (Inr [s])"
  by (simp add: reconstruct_path_def follow_start)

text \<open>
  C8. A query with \<open>start = goal\<close> returns the single-node path \<open>[start]\<close>, of edge
  count 0, from the breadth-first and from the depth-first search alike; the visit
  order is \<open>[start]\<close> too. This holds for every graph, whether or not the node is in it.
\<close>

theorem path_start_eq_goal:
  "bfs_path G s s = Some (Inr ([s], [s])) \<and> path_edge_count [s] = 0 \<and>
   dfs_path G s s = Some (Inr ([s], [s]))"
  by (simp add: bfs_path_def dfs_path_def finish_def reconstruct_start path_edge_count_def)

lemma topology_bfs:
  "bfs_path build_network_topology ''ISP'' ''Camera_1'' =
     Some (Inr ([''ISP'', ''Router'', ''Switch'', ''AP_2'', ''IoT_Hub'', ''Camera_1''],
                [''ISP'', ''Router'', ''Switch'', ''AP_1'', ''AP_2'', ''HomeServer'', ''NAS'', ''PC'',
                 ''Printer'', ''Laptop_1'', ''Phone_1'', ''TV'', ''IoT_Hub'', ''Laptop_2'', ''Phone_2'',
                 ''Camera_1'']))"
  by code_simp

lemma topology_dfs:
  "dfs_path build_network_topology ''ISP'' ''Camera_1'' =
     Some (Inr ([''ISP'', ''Router'', ''Switch'', ''AP_2'', ''IoT_Hub'', ''Camera_1''],
                [''ISP'', ''Router'', ''Switch'', ''AP_1'', ''Laptop_1'', ''Phone_1'', ''TV'', ''AP_2'',
                 ''IoT_Hub'', ''Camera_1'']))"
  by code_simp

lemma topology_size:
  "number_of_nodes build_network_topology = 17 \<and> number_of_edges build_network_topology = 16"
  by code_simp

text \<open>
  C4. On the reference topology (17 nodes, 16 edges) the breadth-first search from
  \<open>ISP\<close> to \<open>Camera_1\<close> returns the path ISP, Router, Switch, AP_2, IoT_Hub, Camera_1,
  of 5 edges, and the depth-first search returns the same path.
\<close>

theorem reference_topology_paths:
  "number_of_nodes build_network_topology = 17 \<and>
   number_of_edges build_network_topology = 16 \<and>
   map_option (map_sum id fst) (bfs_path build_network_topology ''ISP'' ''Camera_1'') =
     Some (Inr [''ISP'', ''Router'', ''Switch'', ''AP_2'', ''IoT_Hub'', ''Camera_1'']) \<and>
   map_option (map_sum id fst) (dfs_path build_network_topology ''ISP'' ''Camera_1'') =
     Some (Inr [''ISP'', ''Router'', ''Switch'', ''AP_2'', ''IoT_Hub'', ''Camera_1'']) \<and>
   path_edge_count [''ISP'', ''Router'', ''Switch'', ''AP_2'', ''IoT_Hub'', ''Camera_1''] = 5"
  by (simp add: topology_bfs topology_dfs topology_size path_edge_count_def)

section \<open>Path search: the loops\<close>

lemma discover_eq:
  "distinct ns \<Longrightarrow>
   discover v ns (par, fr) =
     ((\<lambda>x. if x \<in> set ns \<and> par x = None then Some (Some v) else par x),
      fr @ filter (\<lambda>x. par x = None) ns)"
proof (induction ns arbitrary: par fr)
  case Nil
  then show ?case by simp
next
  case (Cons n ns)
  then have d: "distinct ns" and nn: "n \<notin> set ns" by auto
  show ?case
  proof (cases "par n = None")
    case True
    define par1 where "par1 = par(n \<mapsto> Some v)"
    have f: "filter (\<lambda>x. par1 x = None) ns = filter (\<lambda>x. par x = None) ns"
      using nn by (intro filter_cong) (auto simp: par1_def)
    have g: "(\<lambda>x. if x \<in> set ns \<and> par1 x = None then Some (Some v) else par1 x)
           = (\<lambda>x. if x \<in> set (n # ns) \<and> par x = None then Some (Some v) else par x)"
      using True by (auto simp: fun_eq_iff par1_def)
    have "discover v (n # ns) (par, fr) = discover v ns (par1, fr @ [n])"
      using True by (simp add: par1_def)
    also have "\<dots> = ((\<lambda>x. if x \<in> set ns \<and> par1 x = None then Some (Some v) else par1 x),
                      (fr @ [n]) @ filter (\<lambda>x. par1 x = None) ns)"
      by (rule Cons.IH [OF d])
    also have "\<dots> = ((\<lambda>x. if x \<in> set (n # ns) \<and> par x = None then Some (Some v) else par x),
                      fr @ filter (\<lambda>x. par x = None) (n # ns))"
      unfolding f g using True by simp
    finally show ?thesis .
  next
    case False
    have g: "(\<lambda>x. if x \<in> set ns \<and> par x = None then Some (Some v) else par x)
           = (\<lambda>x. if x \<in> set (n # ns) \<and> par x = None then Some (Some v) else par x)"
      using False by (auto simp: fun_eq_iff)
    have "discover v (n # ns) (par, fr) = discover v ns (par, fr)"
      using False by auto
    also have "\<dots> = ((\<lambda>x. if x \<in> set ns \<and> par x = None then Some (Some v) else par x),
                      fr @ filter (\<lambda>x. par x = None) ns)"
      by (rule Cons.IH [OF d])
    also have "\<dots> = ((\<lambda>x. if x \<in> set (n # ns) \<and> par x = None then Some (Some v) else par x),
                      fr @ filter (\<lambda>x. par x = None) (n # ns))"
      unfolding g using False by auto
    finally show ?thesis .
  qed
qed

lemma chain_mono:
  assumes "chain par x xs" and "par \<subseteq>\<^sub>m par'"
  shows "chain par' x xs"
  using assms
proof (induction rule: chain.induct)
  case (chain_root parent x)
  then have "par' x = Some None" by (auto simp: map_le_def dom_def)
  then show ?case by (rule chain.chain_root)
next
  case (chain_step parent x p xs)
  then have "par' x = Some (Some p)" by (auto simp: map_le_def dom_def)
  then show ?case using chain_step by (auto intro: chain.chain_step)
qed

lemma chain_nonempty: "chain par x xs \<Longrightarrow> xs \<noteq> [] \<and> last xs = x"
  by (induction rule: chain.induct) auto

lemma chain_unique: "chain par x xs \<Longrightarrow> chain par x ys \<Longrightarrow> xs = ys"
proof (induction arbitrary: ys rule: chain.induct)
  case (chain_root parent x)
  from chain_root(2) chain_root(1) show ?case by (cases rule: chain.cases) auto
next
  case (chain_step parent x p xs)
  from chain_step(4) chain_step(1) obtain zs where "ys = zs @ [x]" "chain parent p zs"
    by (cases rule: chain.cases) auto
  with chain_step.IH show ?case by auto
qed

lemma follow_chain:
  "chain par x xs \<Longrightarrow> follow par (Some x) acc = Some (Inr (acc @ rev xs))"
proof (induction arbitrary: acc rule: chain.induct)
  case (chain_root parent x)
  then show ?case by (simp add: follow.simps)
next
  case (chain_step parent x p xs)
  show ?case
    using chain_step.hyps(1) chain_step.IH [of "acc @ [x]"]
    by (subst follow.simps) simp
qed

lemma neighbors_sorted_absent:
  "\<not> has_node G v \<Longrightarrow> neighbors_sorted G v = Inl NetworkXError"
proof -
  assume "\<not> has_node G v"
  then have "map_of (adj G) v = None"
    by (simp add: has_node_def map_of_eq_None_iff)
  then show ?thesis by (simp add: neighbors_sorted_def neighbors_def)
qed

lemma neighbors_sorted_wf:
  assumes "wf_graph G" and "has_node G v"
  shows "\<exists>nbs. neighbors_sorted G v = Inr nbs \<and> distinct nbs \<and> set nbs = {n. edge G v n}
           \<and> set nbs \<subseteq> set (nodes_of G)"
proof -
  from assms(2) obtain nbrs where m: "map_of (adj G) v = Some nbrs"
    by (cases "map_of (adj G) v") (auto simp: has_node_def map_of_eq_None_iff)
  then have mem: "(v, nbrs) \<in> set (adj G)" by (rule map_of_SomeD)
  with assms(1) have d: "distinct (map fst nbrs)"
    and bk: "\<forall>(w, d) \<in> set nbrs. map_of (adj G) w \<noteq> None"
    unfolding wf_graph_def by (fastforce split: option.splits)+
  have ns: "neighbors_sorted G v = Inr (sort (map fst nbrs))"
    using m by (simp add: neighbors_sorted_def neighbors_def)
  have e: "set (sort (map fst nbrs)) = {n. edge G v n}"
    using m by (auto simp: edge_def)
  have sub: "set (map fst nbrs) \<subseteq> set (nodes_of G)"
  proof
    fix w assume "w \<in> set (map fst nbrs)"
    then obtain d where "(w, d) \<in> set nbrs" by auto
    with bk have "map_of (adj G) w \<noteq> None" by blast
    then show "w \<in> set (nodes_of G)" by (simp add: nodes_of_def map_of_eq_None_iff)
  qed
  show ?thesis using ns d e sub by auto
qed

lemma search_inv_step:
  assumes inv: "search_inv G start goal fr par vo"
    and v: "v \<in> set fr" "v \<noteq> goal"
    and rest: "set fr = insert v (set rest)" "distinct rest" "v \<notin> set rest"
    and ns: "distinct ns" "set ns = {n. edge G v n}" "set ns \<subseteq> set (nodes_of G)"
    and par': "par' = (\<lambda>x. if x \<in> set ns \<and> par x = None then Some (Some v) else par x)"
    and fr': "fr' = rest @ filter (\<lambda>x. par x = None) ns"
  shows "search_inv G start goal fr' par' (vo @ [v])"
proof -
  from inv have D: "distinct (vo @ fr)" and DOM: "dom par = set vo \<union> set fr"
    and S: "par start = Some None" and R: "\<forall>x. par x = Some None \<longrightarrow> x = start"
    and E: "\<forall>x p. par x = Some (Some p) \<longrightarrow> p \<in> set vo \<and> edge G p x"
    and N: "set fr \<subseteq> set (nodes_of G)"
    and H: "if vo = [] then set fr = {start} else hd vo = start"
    and C: "\<forall>x \<in> dom par. \<exists>xs. chain par x xs"
    and GL: "goal \<notin> set vo"
    and CL: "\<forall>u \<in> set vo. \<forall>n. edge G u n \<longrightarrow> par n \<noteq> None"
    unfolding search_inv_def by blast+
  define new where "new = filter (\<lambda>x. par x = None) ns"
  have fr'': "fr' = rest @ new" by (simp add: fr' new_def)
  have new_set: "set new = {x \<in> set ns. par x = None}" by (auto simp: new_def)
  have new_dist: "distinct new" using ns(1) by (simp add: new_def)
  have vdom: "par v \<noteq> None" using DOM v(1) by (auto simp: dom_def)
  have old: "\<And>x. par x \<noteq> None \<Longrightarrow> par' x = par x" by (simp add: par')
  have fresh: "\<And>x. x \<in> set new \<Longrightarrow> par' x = Some (Some v)" by (simp add: par' new_set)
  have dom': "dom par' = dom par \<union> set new"
    by (auto simp: par' new_set dom_def split: if_splits)
  have le: "par \<subseteq>\<^sub>m par'" by (auto simp: map_le_def par' dom_def)
  have disj: "set new \<inter> dom par = {}" by (auto simp: new_set dom_def)
  have c1: "distinct ((vo @ [v]) @ fr')"
  proof -
    have "set vo \<inter> set rest = {}" "v \<notin> set vo" using D rest(1) v(1) by auto
    moreover have "set vo \<inter> set new = {}" "set rest \<inter> set new = {}" "v \<notin> set new"
      using disj DOM rest(1) by auto
    moreover have "distinct vo" using D by simp
    ultimately show ?thesis using rest(2,3) new_dist unfolding fr'' by auto
  qed
  have c2: "dom par' = set (vo @ [v]) \<union> set fr'"
    unfolding dom' DOM rest(1) fr'' by auto
  have c3: "par' start = Some None" using S old [of start] by simp
  have c4: "\<forall>x. par' x = Some None \<longrightarrow> x = start"
    using R by (auto simp: par' split: if_splits)
  have c5: "\<forall>x p. par' x = Some (Some p) \<longrightarrow> p \<in> set (vo @ [v]) \<and> edge G p x"
    using E ns(2) by (auto simp: par' split: if_splits)
  have c6: "set fr' \<subseteq> set (nodes_of G)"
    using N rest(1) ns(3) new_set unfolding fr'' by auto
  have c7: "if vo @ [v] = [] then set fr' = {start} else hd (vo @ [v]) = start"
  proof (cases "vo = []")
    case True
    with H have "set fr = {start}" by simp
    with v(1) have "v = start" by auto
    with True show ?thesis by simp
  next
    case False
    with H show ?thesis by simp
  qed
  have c8: "\<forall>x \<in> dom par'. \<exists>xs. chain par' x xs"
  proof
    fix x assume "x \<in> dom par'"
    then consider "x \<in> dom par" | "x \<in> set new" unfolding dom' by blast
    then show "\<exists>xs. chain par' x xs"
    proof cases
      case 1
      with C obtain xs where "chain par x xs" by blast
      then have "chain par' x xs" using le by (rule chain_mono)
      then show ?thesis ..
    next
      case 2
      from vdom C obtain xs where "chain par v xs" by (auto simp: dom_def)
      then have "chain par' v xs" using le by (rule chain_mono)
      with fresh [OF 2] have "chain par' x (xs @ [x])" by (rule chain.chain_step)
      then show ?thesis ..
    qed
  qed
  have c9: "goal \<notin> set (vo @ [v])" using GL v(2) by auto
  have c10: "\<forall>u \<in> set (vo @ [v]). \<forall>n. edge G u n \<longrightarrow> par' n \<noteq> None"
  proof (intro ballI allI impI)
    fix u n assume u: "u \<in> set (vo @ [v])" and e: "edge G u n"
    show "par' n \<noteq> None"
    proof (cases "u = v")
      case True
      with e ns(2) have "n \<in> set ns" by simp
      then show ?thesis by (simp add: par')
    next
      case False
      with u CL e have "par n \<noteq> None" by auto
      then show ?thesis using old by simp
    qed
  qed
  show ?thesis unfolding search_inv_def using c1 c2 c3 c4 c5 c6 c7 c8 c9 c10 by blast
qed

lemma search_inv_init:
  assumes "has_node G start"
  shows "search_inv G start goal [start] [start \<mapsto> None] []"
proof -
  have "chain [start \<mapsto> None] start [start]" by (rule chain.chain_root) simp
  then have "\<forall>x \<in> dom [start \<mapsto> None]. \<exists>xs. chain [start \<mapsto> None] x xs" by auto
  then show ?thesis using assms unfolding search_inv_def has_node_def nodes_of_def
    by (auto split: if_splits)
qed

lemma search_done_goal:
  assumes "search_inv G start goal fr par vo" and "goal \<in> set fr"
  shows "search_done G start goal par (vo @ [goal])"
  unfolding search_done_def using assms by blast

lemma bfs_loop_done:
  "wf_graph G \<Longrightarrow> search_inv G start goal q par vo \<Longrightarrow>
   \<exists>par' vo'. bfs_loop G goal q par vo = Inr (par', vo') \<and> search_done G start goal par' vo'"
proof (induction G goal q par vo rule: bfs_loop.induct)
  case (1 G goal par vo)
  then show ?case by (simp add: search_done_def)
next
  case (2 G goal v q par vo)
  note inv = "2.prems"(2)
  show ?case
  proof (cases "v = goal")
    case True
    have "search_done G start goal par (vo @ [goal])"
      using inv True by (intro search_done_goal [of G start goal "v # q"]) auto
    then show ?thesis using True by simp
  next
    case False
    from inv have D: "distinct (vo @ v # q)" and N: "set (v # q) \<subseteq> set (nodes_of G)"
      unfolding search_inv_def by blast+
    then have hv: "has_node G v" by (simp add: has_node_def nodes_of_def)
    from neighbors_sorted_wf [OF "2.prems"(1) hv] obtain nbs where
      nbs: "neighbors_sorted G v = Inr nbs" "distinct nbs" "set nbs = {n. edge G v n}"
        "set nbs \<subseteq> set (nodes_of G)" by blast
    define par' where "par' = (\<lambda>x. if x \<in> set nbs \<and> par x = None then Some (Some v) else par x)"
    define q' where "q' = q @ filter (\<lambda>x. par x = None) nbs"
    have disc: "discover v nbs (par, q) = (par', q')"
      unfolding par'_def q'_def by (rule discover_eq [OF nbs(2)])
    have inv': "search_inv G start goal q' par' (vo @ [v])"
      using inv _ False _ _ _ nbs(2,3,4) par'_def q'_def
    proof (rule search_inv_step)
      show "v \<in> set (v # q)" by simp
      show "set (v # q) = insert v (set q)" by simp
      show "distinct q" "v \<notin> set q" using D by auto
    qed
    from "2.IH" [OF False nbs(1) disc [symmetric] "2.prems"(1) inv']
    obtain par'' vo'' where "bfs_loop G goal q' par' (vo @ [v]) = Inr (par'', vo'')"
      "search_done G start goal par'' vo''" by blast
    then show ?thesis using False nbs(1) disc by simp
  qed
qed

lemma dfs_loop_done:
  "wf_graph G \<Longrightarrow> search_inv G start goal st par vo \<Longrightarrow>
   \<exists>par' vo'. dfs_loop G goal st par vo = Inr (par', vo') \<and> search_done G start goal par' vo'"
proof (induction G goal st par vo rule: dfs_loop.induct)
  case (1 G goal st par vo)
  note inv = "1.prems"(2)
  show ?case
  proof (cases "st = []")
    case True
    then show ?thesis using inv by (simp add: search_done_def)
  next
    case ne: False
    define v where "v = last st"
    have vin: "v \<in> set st" using ne by (simp add: v_def)
    have st: "st = butlast st @ [v]" using ne by (simp add: v_def)
    show ?thesis
    proof (cases "v = goal")
      case True
      have "search_done G start goal par (vo @ [goal])"
        using inv vin True by (intro search_done_goal [of G start goal st]) auto
      then show ?thesis using True ne by (subst dfs_loop.simps) (simp add: v_def Let_def)
    next
      case False
      from inv have D: "distinct (vo @ st)" and N: "set st \<subseteq> set (nodes_of G)"
        unfolding search_inv_def by blast+
      then have hv: "has_node G v" using vin by (auto simp: has_node_def nodes_of_def)
      from neighbors_sorted_wf [OF "1.prems"(1) hv] obtain nbs where
        nbs: "neighbors_sorted G v = Inr nbs" "distinct nbs" "set nbs = {n. edge G v n}"
          "set nbs \<subseteq> set (nodes_of G)" by blast
      define par' where "par' = (\<lambda>x. if x \<in> set (rev nbs) \<and> par x = None then Some (Some v) else par x)"
      define st' where "st' = butlast st @ filter (\<lambda>x. par x = None) (rev nbs)"
      have dr: "distinct (rev nbs)" using nbs(2) by simp
      have disc: "discover v (rev nbs) (par, butlast st) = (par', st')"
        unfolding par'_def st'_def by (rule discover_eq [OF dr])
      have dst: "distinct st" using D by simp
      have inv': "search_inv G start goal st' par' (vo @ [v])"
        using inv vin False _ _ _ dr _ _ par'_def st'_def
      proof (rule search_inv_step)
        show "set st = insert v (set (butlast st))" by (subst st) auto
        show "distinct (butlast st)" using dst by (rule distinct_butlast)
        show "v \<notin> set (butlast st)" using dst by (subst (asm) st) auto
        show "set (rev nbs) = {n. edge G v n}" using nbs(3) by simp
        show "set (rev nbs) \<subseteq> set (nodes_of G)" using nbs(4) by simp
      qed
      from "1.IH" [OF ne v_def False nbs(1) disc [symmetric] "1.prems"(1) inv']
      obtain par'' vo'' where r: "dfs_loop G goal st' par' (vo @ [v]) = Inr (par'', vo'')"
        "search_done G start goal par'' vo''" by blast
      have "dfs_loop G goal st par vo = dfs_loop G goal st' par' (vo @ [v])"
        using ne False nbs(1) disc by (subst dfs_loop.simps) (simp add: v_def Let_def)
      then show ?thesis using r by simp
    qed
  qed
qed

lemma is_walk_snoc:
  "is_walk G xs \<Longrightarrow> edge G (last xs) x \<Longrightarrow> is_walk G (xs @ [x])"
  by (induction G xs rule: is_walk.induct) auto

lemma walk_closed:
  "is_walk G p \<Longrightarrow> hd p \<in> S \<Longrightarrow> (\<forall>u \<in> S. \<forall>n. edge G u n \<longrightarrow> n \<in> S) \<Longrightarrow> last p \<in> S"
  by (induction G p rule: is_walk.induct) auto

lemma chain_walk:
  assumes "chain par x xs"
    and "\<forall>y. par y = Some None \<longrightarrow> y = start"
    and "\<forall>y p. par y = Some (Some p) \<longrightarrow> edge G p y"
  shows "walk_from_to G start x xs"
  using assms
proof (induction rule: chain.induct)
  case (chain_root parent x)
  then show ?case by (simp add: walk_from_to_def)
next
  case (chain_step parent x p xs)
  then have w: "is_walk G xs" "hd xs = start" "last xs = p" by (auto simp: walk_from_to_def)
  from chain_step have e: "edge G p x" by blast
  have "is_walk G (xs @ [x])" using w(1) e w(3) by (intro is_walk_snoc) auto
  moreover have "xs \<noteq> []" using w(1) by auto
  ultimately show ?case using w(2) by (simp add: walk_from_to_def)
qed

lemma reconstruct_chain:
  assumes "chain par goal xs" and "hd xs = start"
  shows "reconstruct_path par start goal = Some (Inr xs)"
proof -
  from assms(1) have ne: "xs \<noteq> []" by (simp add: chain_nonempty)
  from assms(1) have "par goal \<noteq> None" by (cases rule: chain.cases) auto
  moreover have "follow par (Some goal) [] = Some (Inr (rev xs))"
    using follow_chain [OF assms(1), of "[]"] by simp
  ultimately show ?thesis using ne assms(2) by (simp add: reconstruct_path_def)
qed

lemma search_done_order:
  assumes "search_done G start goal par vo"
  shows "distinct vo \<and> vo \<noteq> [] \<and> hd vo = start"
  using assms unfolding search_done_def
proof
  assume "search_inv G start goal [] par vo"
  then show ?thesis unfolding search_inv_def by (auto split: if_splits)
next
  assume "\<exists>fr vo'. vo = vo' @ [goal] \<and> goal \<in> set fr \<and> search_inv G start goal fr par vo'"
  then obtain fr vo' where vo: "vo = vo' @ [goal]" and g: "goal \<in> set fr"
    and inv: "search_inv G start goal fr par vo'" by blast
  from inv have D: "distinct (vo' @ fr)" and H: "if vo' = [] then set fr = {start} else hd vo' = start"
    unfolding search_inv_def by blast+
  have "distinct vo" using D g unfolding vo by auto
  moreover have "hd vo = start" using H g unfolding vo by (cases vo') (auto split: if_splits)
  ultimately show ?thesis unfolding vo by simp
qed

lemma search_done_parent:
  assumes "search_done G start goal par vo"
  shows "(\<forall>y. par y = Some None \<longrightarrow> y = start) \<and> (\<forall>y p. par y = Some (Some p) \<longrightarrow> edge G p y) \<and>
         (\<forall>x \<in> dom par. \<exists>xs. chain par x xs)"
  using assms unfolding search_done_def search_inv_def by blast

lemma search_done_found:
  assumes "search_done G start goal par vo" and "reachable G start goal"
  shows "par goal \<noteq> None"
  using assms(1) unfolding search_done_def
proof
  assume inv: "search_inv G start goal [] par vo"
  then have DOM: "dom par = set vo" and S: "par start = Some None"
    and CL: "\<forall>u \<in> set vo. \<forall>n. edge G u n \<longrightarrow> par n \<noteq> None"
    unfolding search_inv_def by auto
  from assms(2) obtain p where p: "is_walk G p" "hd p = start" "last p = goal"
    by (auto simp: reachable_def walk_from_to_def)
  have "last p \<in> dom par"
    using p(1)
  proof (rule walk_closed)
    show "hd p \<in> dom par" using S p(2) by auto
    show "\<forall>u \<in> dom par. \<forall>n. edge G u n \<longrightarrow> n \<in> dom par" using CL DOM by (auto simp: dom_def)
  qed
  then show ?thesis using p(3) by auto
next
  assume "\<exists>fr vo'. vo = vo' @ [goal] \<and> goal \<in> set fr \<and> search_inv G start goal fr par vo'"
  then show ?thesis unfolding search_inv_def by (auto simp: dom_def set_eq_iff)
qed

lemma finish_done:
  assumes "search_done G start goal par vo"
  shows "\<exists>p. finish start goal (Inr (par, vo)) = Some (Inr (p, vo)) \<and>
           distinct vo \<and> vo \<noteq> [] \<and> hd vo = start \<and>
           (if reachable G start goal then walk_from_to G start goal p \<and> chain par goal p else p = [])"
proof (cases "par goal = None")
  case True
  then have "reconstruct_path par start goal = Some (Inr [])" by (simp add: reconstruct_path_def)
  moreover have "\<not> reachable G start goal" using search_done_found [OF assms] True by blast
  ultimately show ?thesis using search_done_order [OF assms] by (simp add: finish_def)
next
  case False
  with search_done_parent [OF assms] obtain xs where c: "chain par goal xs" by (auto simp: dom_def)
  have w: "walk_from_to G start goal xs"
    using c search_done_parent [OF assms] by (intro chain_walk) blast+
  then have "reconstruct_path par start goal = Some (Inr xs)"
    using c by (intro reconstruct_chain) (auto simp: walk_from_to_def)
  moreover have "reachable G start goal" using w by (auto simp: reachable_def)
  ultimately show ?thesis using search_done_order [OF assms] w c by (simp add: finish_def)
qed

lemma bfs_path_done:
  assumes "wf_graph G" and "has_node G start"
  shows "\<exists>p vo. bfs_path G start goal = Some (Inr (p, vo)) \<and>
           distinct vo \<and> vo \<noteq> [] \<and> hd vo = start \<and>
           (if reachable G start goal then walk_from_to G start goal p else p = [])"
proof -
  from bfs_loop_done [OF assms(1) search_inv_init [OF assms(2)], of goal]
  obtain par vo where r: "bfs_loop G goal [start] [start \<mapsto> None] [] = Inr (par, vo)"
    and d: "search_done G start goal par vo" by blast
  from finish_done [OF d] show ?thesis unfolding bfs_path_def r by (auto split: if_splits)
qed

lemma dfs_path_done:
  assumes "wf_graph G" and "has_node G start"
  shows "\<exists>p vo. dfs_path G start goal = Some (Inr (p, vo)) \<and>
           distinct vo \<and> vo \<noteq> [] \<and> hd vo = start \<and>
           (if reachable G start goal then walk_from_to G start goal p else p = [])"
proof -
  from dfs_loop_done [OF assms(1) search_inv_init [OF assms(2)], of goal]
  obtain par vo where r: "dfs_loop G goal [start] [start \<mapsto> None] [] = Inr (par, vo)"
    and d: "search_done G start goal par vo" by blast
  from finish_done [OF d] show ?thesis unfolding dfs_path_def r by (auto split: if_splits)
qed

lemma follow_result_aux:
  "follow par cur acc = Some r \<Longrightarrow>
   (case r of Inl e \<Rightarrow> True
    | Inr xs \<Rightarrow> \<exists>ys. xs = acc @ ys \<and> (\<forall>c. cur = Some c \<longrightarrow> ys \<noteq> [] \<and> hd ys = c))"
proof (induction rule: follow.raw_induct [rotated 1, consumes 1])
  case (1 follow parent cur path r)
  show ?case
  proof (cases cur)
    case None
    with 1(2) show ?thesis by auto
  next
    case (Some c)
    show ?thesis
    proof (cases "parent c")
      case None
      with Some 1(2) show ?thesis by auto
    next
      case (Some nxt)
      with \<open>cur = Some c\<close> 1(2) have "follow parent nxt (path @ [c]) = Some r" by simp
      from 1(1) [OF this] show ?thesis using \<open>cur = Some c\<close> by (auto split: sum.splits)
    qed
  qed
qed

lemma follow_result:
  assumes "follow par (Some goal) [] = Some (Inr xs)"
  shows "xs \<noteq> [] \<and> hd xs = goal"
  using follow_result_aux [OF assms] by auto

lemma reconstruct_result:
  assumes "reconstruct_path par start goal = Some (Inr p)"
  shows "p = [] \<or> (hd p = start \<and> last p = goal)"
proof (cases "par goal = None")
  case True
  with assms show ?thesis by (simp add: reconstruct_path_def)
next
  case False
  with assms obtain xs where f: "follow par (Some goal) [] = Some (Inr xs)"
    and p: "p = (if rev xs \<noteq> [] \<and> hd (rev xs) = start then rev xs else [])"
    by (auto simp: reconstruct_path_def Let_def split: option.splits sum.splits)
  from follow_result [OF f] have "last (rev xs) = goal" by (simp add: last_rev)
  with p show ?thesis by auto
qed

lemma is_walk_last_edge:
  "is_walk G p \<Longrightarrow> hd p \<noteq> last p \<Longrightarrow> \<exists>u. edge G u (last p)"
  by (induction G p rule: is_walk.induct) (auto split: if_splits)

lemma edge_has_node:
  assumes "wf_graph G" and "edge G u v"
  shows "has_node G v"
proof -
  from assms(2) obtain nbrs where m: "map_of (adj G) u = Some nbrs" and v: "v \<in> set (map fst nbrs)"
    by (auto simp: edge_def split: option.splits)
  from m have mem: "(u, nbrs) \<in> set (adj G)" by (rule map_of_SomeD)
  from v obtain d where "(v, d) \<in> set nbrs" by auto
  with mem assms(1) have "map_of (adj G) v \<noteq> None"
    unfolding wf_graph_def by (fastforce split: option.splits)
  then show ?thesis by (simp add: has_node_def map_of_eq_None_iff)
qed

lemma absent_unreachable:
  assumes "wf_graph G" and "\<not> has_node G goal" and "start \<noteq> goal"
  shows "\<not> reachable G start goal"
proof
  assume "reachable G start goal"
  then obtain p where p: "is_walk G p" "hd p = start" "last p = goal"
    by (auto simp: reachable_def walk_from_to_def)
  with assms(3) have "hd p \<noteq> last p" by simp
  from is_walk_last_edge [OF p(1) this] obtain u where "edge G u goal" using p(3) by auto
  from edge_has_node [OF assms(1) this] assms(2) show False by simp
qed

lemma search_absent_start:
  assumes "\<not> has_node G start" and "start \<noteq> goal"
  shows "bfs_path G start goal = Some (Inl NetworkXError) \<and> dfs_path G start goal = Some (Inl NetworkXError)"
  using assms neighbors_sorted_absent [OF assms(1)]
  by (simp add: bfs_path_def dfs_path_def finish_def)

lemma topology_wf: "wf_graph build_network_topology"
  by code_simp

lemma topology_has_isp: "has_node build_network_topology ''ISP''"
  by code_simp

text \<open>
  C10. On a well-formed graph that holds the start node, both searches return, and the
  visit order they return begins with the start node and lists no node twice. The loops
  are total functions: each round takes one node from the frontier and adds only nodes
  that had no parent entry, so \<open>2 * (nodes without an entry) + (length of the frontier)\<close>
  decreases.
\<close>

theorem visit_order_start_distinct:
  assumes "wf_graph G" and "has_node G start"
  shows "(\<exists>p vo. bfs_path G start goal = Some (Inr (p, vo)) \<and> vo \<noteq> [] \<and> hd vo = start \<and> distinct vo) \<and>
         (\<exists>p vo. dfs_path G start goal = Some (Inr (p, vo)) \<and> vo \<noteq> [] \<and> hd vo = start \<and> distinct vo)"
  using bfs_path_done [OF assms, of goal] dfs_path_done [OF assms, of goal] by blast

theorem visit_order_start_distinct_witness:
  "wf_graph build_network_topology \<and> has_node build_network_topology ''ISP'' \<and>
   (\<exists>p vo. bfs_path build_network_topology ''ISP'' ''Camera_1'' = Some (Inr (p, vo)) \<and>
      vo \<noteq> [] \<and> hd vo = ''ISP'' \<and> distinct vo) \<and>
   (\<exists>p vo. dfs_path build_network_topology ''ISP'' ''Camera_1'' = Some (Inr (p, vo)) \<and>
      vo \<noteq> [] \<and> hd vo = ''ISP'' \<and> distinct vo)"
  using visit_order_start_distinct [OF topology_wf topology_has_isp, of "''Camera_1''"]
    topology_wf topology_has_isp by blast

lemma island_wf: "wf_graph island_graph"
  by code_simp

lemma island_has_a: "has_node island_graph ''A''"
  by code_simp

lemma island_has_c: "has_node island_graph ''C''"
  by code_simp

lemma island_no_edge_c: "\<not> edge island_graph u ''C''"
  by (simp add: island_graph_def add_edges_from_def add_nodes_from_def add_edge_def add_node_def
      ensure_node_def set_adj_def has_node_def empty_graph_def edge_def mk_edge_def)

lemma island_unreachable: "\<not> reachable island_graph ''A'' ''C''"
proof
  assume "reachable island_graph ''A'' ''C''"
  then obtain p where p: "is_walk island_graph p" "hd p = ''A''" "last p = ''C''"
    by (auto simp: reachable_def walk_from_to_def)
  then have "hd p \<noteq> last p" by simp
  from is_walk_last_edge [OF p(1) this] show False using p(3) island_no_edge_c by auto
qed

lemma topology_lacks_server_x: "\<not> has_node build_network_topology ''Server_X''"
  by code_simp

text \<open>
  C6, as the scripts behave. The claim fails for an absent goal: the search runs through
  the whole component of the start node and returns the empty path, with no error.
\<close>

theorem path_query_absent_goal_counterexample:
  "\<not> has_node build_network_topology ''Server_X'' \<and>
   bfs_path build_network_topology ''ISP'' ''Server_X'' =
     Some (Inr ([], [''ISP'', ''Router'', ''Switch'', ''AP_1'', ''AP_2'', ''HomeServer'', ''NAS'', ''PC'',
                     ''Printer'', ''Laptop_1'', ''Phone_1'', ''TV'', ''IoT_Hub'', ''Laptop_2'', ''Phone_2'',
                     ''Camera_1'', ''Camera_2''])) \<and>
   dfs_path build_network_topology ''ISP'' ''Server_X'' =
     Some (Inr ([], [''ISP'', ''Router'', ''Switch'', ''AP_1'', ''Laptop_1'', ''Phone_1'', ''TV'', ''AP_2'',
                     ''IoT_Hub'', ''Camera_1'', ''Camera_2'', ''Laptop_2'', ''Phone_2'', ''HomeServer'',
                     ''NAS'', ''PC'', ''Printer'']))"
  by code_simp

text \<open>
  C6, amended. A start node that is not in the graph, with a goal other than it, makes
  both searches fail, with the \<open>NetworkXError\<close> of the neighbour lookup. On a
  well-formed graph that holds the start node, a goal that is absent or that no walk
  from the start reaches gives the empty path from both searches, and no error.
\<close>

theorem path_query_absent_or_unreachable:
  "(\<not> has_node G start \<and> start \<noteq> goal \<longrightarrow>
      bfs_path G start goal = Some (Inl NetworkXError) \<and>
      dfs_path G start goal = Some (Inl NetworkXError)) \<and>
   (wf_graph G \<and> has_node G start \<and> (\<not> has_node G goal \<or> \<not> reachable G start goal) \<longrightarrow>
      (\<exists>vo. bfs_path G start goal = Some (Inr ([], vo))) \<and>
      (\<exists>vo. dfs_path G start goal = Some (Inr ([], vo))))"
proof (intro conjI impI)
  assume "\<not> has_node G start \<and> start \<noteq> goal"
  then show "bfs_path G start goal = Some (Inl NetworkXError)"
    and "dfs_path G start goal = Some (Inl NetworkXError)"
    using search_absent_start [of G start goal] by auto
next
  assume a: "wf_graph G \<and> has_node G start \<and> (\<not> has_node G goal \<or> \<not> reachable G start goal)"
  then have wf: "wf_graph G" and hs: "has_node G start" by auto
  have nr: "\<not> reachable G start goal"
  proof (cases "has_node G goal")
    case True
    with a show ?thesis by simp
  next
    case False
    with hs have "start \<noteq> goal" by auto
    with wf False show ?thesis by (intro absent_unreachable)
  qed
  show "\<exists>vo. bfs_path G start goal = Some (Inr ([], vo))"
    using bfs_path_done [OF wf hs, of goal] nr by auto
  show "\<exists>vo. dfs_path G start goal = Some (Inr ([], vo))"
    using dfs_path_done [OF wf hs, of goal] nr by auto
qed

theorem path_query_absent_or_unreachable_witness:
  "\<not> has_node build_network_topology ''Server_X'' \<and>
   bfs_path build_network_topology ''Server_X'' ''ISP'' = Some (Inl NetworkXError) \<and>
   dfs_path build_network_topology ''Server_X'' ''ISP'' = Some (Inl NetworkXError) \<and>
   wf_graph island_graph \<and> has_node island_graph ''A'' \<and> has_node island_graph ''C'' \<and>
   \<not> reachable island_graph ''A'' ''C'' \<and>
   (\<exists>vo. bfs_path island_graph ''A'' ''C'' = Some (Inr ([], vo))) \<and>
   (\<exists>vo. dfs_path island_graph ''A'' ''C'' = Some (Inr ([], vo)))"
proof -
  have ne: "''Server_X'' \<noteq> ''ISP''" by simp
  from path_query_absent_or_unreachable [of build_network_topology "''Server_X''" "''ISP''"]
    topology_lacks_server_x ne
  have a: "bfs_path build_network_topology ''Server_X'' ''ISP'' = Some (Inl NetworkXError) \<and>
           dfs_path build_network_topology ''Server_X'' ''ISP'' = Some (Inl NetworkXError)"
    by blast
  from path_query_absent_or_unreachable [of island_graph "''A''" "''C''"]
    island_wf island_has_a island_unreachable
  have b: "(\<exists>vo. bfs_path island_graph ''A'' ''C'' = Some (Inr ([], vo))) \<and>
           (\<exists>vo. dfs_path island_graph ''A'' ''C'' = Some (Inr ([], vo)))"
    by blast
  show ?thesis
    using a b topology_lacks_server_x island_wf island_has_a island_has_c island_unreachable by blast
qed

lemma reconstruct_done:
  assumes "search_done G start goal par vo"
  shows "\<exists>p. reconstruct_path par start goal = Some (Inr p)"
  using finish_done [OF assms] by (auto simp: finish_def split: option.splits sum.splits)

text \<open>
  C7. \<open>reconstruct_path\<close> returns the empty path when the goal has no parent entry, and
  also when the sequence that following the parent links from the goal gives does not
  begin with the start node; whatever it returns is empty or runs from the start node
  to the goal. On the parent dictionary that a breadth-first or a depth-first search
  leaves behind, it does return.
\<close>

theorem reconstruct_path_safe:
  "(par goal = None \<longrightarrow> reconstruct_path par start goal = Some (Inr [])) \<and>
   (follow par (Some goal) [] = Some (Inr xs) \<and> (rev xs = [] \<or> hd (rev xs) \<noteq> start) \<longrightarrow>
      reconstruct_path par start goal = Some (Inr [])) \<and>
   (reconstruct_path par start goal = Some (Inr p) \<longrightarrow> p = [] \<or> (hd p = start \<and> last p = goal)) \<and>
   (wf_graph G \<and> has_node G start \<and>
      (bfs_loop G goal [start] [start \<mapsto> None] [] = Inr (par, vo) \<or>
       dfs_loop G goal [start] [start \<mapsto> None] [] = Inr (par, vo)) \<longrightarrow>
      (\<exists>p. reconstruct_path par start goal = Some (Inr p) \<and> (p = [] \<or> (hd p = start \<and> last p = goal))))"
proof (intro conjI impI)
  assume "par goal = None"
  then show "reconstruct_path par start goal = Some (Inr [])" by (simp add: reconstruct_path_def)
next
  assume "follow par (Some goal) [] = Some (Inr xs) \<and> (rev xs = [] \<or> hd (rev xs) \<noteq> start)"
  then show "reconstruct_path par start goal = Some (Inr [])"
    by (auto simp: reconstruct_path_def)
next
  assume "reconstruct_path par start goal = Some (Inr p)"
  then show "p = [] \<or> (hd p = start \<and> last p = goal)" by (rule reconstruct_result)
next
  assume a: "wf_graph G \<and> has_node G start \<and>
      (bfs_loop G goal [start] [start \<mapsto> None] [] = Inr (par, vo) \<or>
       dfs_loop G goal [start] [start \<mapsto> None] [] = Inr (par, vo))"
  then have wf: "wf_graph G" and hs: "has_node G start" by auto
  have "search_done G start goal par vo"
    using a bfs_loop_done [OF wf search_inv_init [OF hs], of goal]
      dfs_loop_done [OF wf search_inv_init [OF hs], of goal] by auto
  from reconstruct_done [OF this] obtain p where p: "reconstruct_path par start goal = Some (Inr p)" ..
  with reconstruct_result [OF p]
  show "\<exists>p. reconstruct_path par start goal = Some (Inr p) \<and> (p = [] \<or> (hd p = start \<and> last p = goal))"
    by blast
qed

theorem reconstruct_path_safe_witness:
  "reconstruct_path [''A'' \<mapsto> None] ''A'' ''B'' = Some (Inr []) \<and>
   follow [''B'' \<mapsto> None, ''C'' \<mapsto> Some ''B''] (Some ''C'') [] = Some (Inr [''C'', ''B'']) \<and>
   reconstruct_path [''B'' \<mapsto> None, ''C'' \<mapsto> Some ''B''] ''A'' ''C'' = Some (Inr []) \<and>
   reconstruct_path [''A'' \<mapsto> None, ''B'' \<mapsto> Some ''A''] ''A'' ''B'' = Some (Inr [''A'', ''B'']) \<and>
   (\<exists>par vo. bfs_loop build_network_topology ''Camera_1'' [''ISP''] [''ISP'' \<mapsto> None] [] = Inr (par, vo) \<and>
      (\<exists>p. reconstruct_path par ''ISP'' ''Camera_1'' = Some (Inr p) \<and>
         (p = [] \<or> (hd p = ''ISP'' \<and> last p = ''Camera_1''))))"
proof -
  have a: "reconstruct_path [''A'' \<mapsto> None] ''A'' ''B'' = Some (Inr [])"
    using reconstruct_path_safe [of "[''A'' \<mapsto> None]" "''B''" "''A''"] by simp
  have f: "follow [''B'' \<mapsto> None, ''C'' \<mapsto> Some ''B''] (Some ''C'') [] = Some (Inr [''C'', ''B''])"
    by (simp add: follow.simps)
  have b: "reconstruct_path [''B'' \<mapsto> None, ''C'' \<mapsto> Some ''B''] ''A'' ''C'' = Some (Inr [])"
    using reconstruct_path_safe [of "[''B'' \<mapsto> None, ''C'' \<mapsto> Some ''B'']" "''C''" "''A''" "[''C'', ''B'']"] f
    by simp
  have c: "reconstruct_path [''A'' \<mapsto> None, ''B'' \<mapsto> Some ''A''] ''A'' ''B'' = Some (Inr [''A'', ''B''])"
    by (simp add: reconstruct_path_def follow.simps)
  obtain par vo where r: "bfs_loop build_network_topology ''Camera_1'' [''ISP''] [''ISP'' \<mapsto> None] [] = Inr (par, vo)"
    using bfs_loop_done [OF topology_wf search_inv_init [OF topology_has_isp], of "''Camera_1''"] by blast
  have d: "\<exists>p. reconstruct_path par ''ISP'' ''Camera_1'' = Some (Inr p) \<and>
         (p = [] \<or> (hd p = ''ISP'' \<and> last p = ''Camera_1''))"
    using reconstruct_path_safe [of par "''Camera_1''" "''ISP''" "[]" "[]" build_network_topology vo]
      topology_wf topology_has_isp r by blast
  show ?thesis using a f b c r d by blast
qed

section \<open>Breadth-first search finds shortest walks\<close>

lemma is_walk_append_one:
  "xs \<noteq> [] \<Longrightarrow> is_walk G (xs @ [x]) = (is_walk G xs \<and> edge G (last xs) x)"
  by (induction G xs rule: is_walk.induct) auto

lemma hops_le:
  assumes "walk_from_to G s x p"
  shows "Suc (hops G s x) \<le> length p"
proof -
  from assms have ne: "p \<noteq> []" by (auto simp: walk_from_to_def)
  then have "reach_in G s x (length p - 1)" using assms by (auto simp: reach_in_def)
  then have "hops G s x \<le> length p - 1" unfolding hops_def by (rule Least_le)
  with ne show ?thesis by (cases p) auto
qed

lemma hops_walk:
  assumes "reachable G s x"
  shows "\<exists>p. walk_from_to G s x p \<and> length p = Suc (hops G s x)"
proof -
  from assms obtain p where p: "walk_from_to G s x p" by (auto simp: reachable_def)
  then have "p \<noteq> []" by (auto simp: walk_from_to_def)
  with p have "reach_in G s x (length p - 1)" by (auto simp: reach_in_def)
  then have "reach_in G s x (hops G s x)" unfolding hops_def by (rule LeastI)
  then show ?thesis by (auto simp: reach_in_def)
qed

lemma reachable_start: "reachable G s s"
  by (auto simp: reachable_def walk_from_to_def intro: exI [of _ "[s]"])

lemma hops_start: "hops G s s = 0"
proof -
  have "walk_from_to G s s [s]" by (simp add: walk_from_to_def)
  from hops_le [OF this] show ?thesis by simp
qed

lemma hops_zero:
  assumes "reachable G s y" and "hops G s y = 0"
  shows "y = s"
proof -
  from hops_walk [OF assms(1)] assms(2) obtain p where "walk_from_to G s y p" "length p = 1" by auto
  then show ?thesis by (cases p) (auto simp: walk_from_to_def)
qed

lemma hops_edge:
  assumes "reachable G s u" and "edge G u x"
  shows "reachable G s x \<and> hops G s x \<le> Suc (hops G s u)"
proof -
  from hops_walk [OF assms(1)] obtain p where p: "walk_from_to G s u p" "length p = Suc (hops G s u)"
    by blast
  then have ne: "p \<noteq> []" by auto
  have w: "walk_from_to G s x (p @ [x])"
    using p(1) ne assms(2) by (simp add: walk_from_to_def is_walk_append_one)
  from hops_le [OF w] p(2) have "hops G s x \<le> Suc (hops G s u)" by simp
  with w show ?thesis by (auto simp: reachable_def)
qed

lemma hops_pred:
  assumes "reachable G s y" and "y \<noteq> s"
  shows "\<exists>u. reachable G s u \<and> edge G u y \<and> hops G s y = Suc (hops G s u)"
proof -
  from hops_walk [OF assms(1)] obtain p where p: "walk_from_to G s y p" "length p = Suc (hops G s y)"
    by blast
  then have ne: "p \<noteq> []" by auto
  define p' where "p' = butlast p"
  have pp: "p = p' @ [y]" using ne p(1) append_butlast_last_id [of p] by (simp add: p'_def walk_from_to_def)
  have ne': "p' \<noteq> []"
  proof
    assume "p' = []"
    with pp p(1) have "y = s" by (simp add: walk_from_to_def)
    with assms(2) show False by simp
  qed
  define u where "u = last p'"
  have w': "is_walk G p'" and e: "edge G u y"
    using p(1) ne' unfolding pp u_def by (simp_all add: walk_from_to_def is_walk_append_one)
  have hd': "hd p' = s" using p(1) ne' unfolding pp by (simp add: walk_from_to_def)
  have wu: "walk_from_to G s u p'" using w' hd' by (simp add: walk_from_to_def u_def)
  then have ru: "reachable G s u" by (auto simp: reachable_def)
  from hops_le [OF wu] p(2) have "Suc (hops G s u) \<le> hops G s y" unfolding pp by simp
  moreover from hops_edge [OF ru e] have "hops G s y \<le> Suc (hops G s u)" by simp
  ultimately show ?thesis using ru e by auto
qed

lemma sorted_map_const:
  "(\<forall>x \<in> set l. f x = (c::nat)) \<Longrightarrow> sorted (map f l)"
  by (induction l) auto

lemma search_inv_reachable:
  assumes "search_inv G start goal fr par vo" and "par x \<noteq> None"
  shows "reachable G start x"
proof -
  from assms(1) have R: "\<forall>y. par y = Some None \<longrightarrow> y = start"
    and E: "\<forall>y p. par y = Some (Some p) \<longrightarrow> edge G p y"
    and C: "\<forall>x \<in> dom par. \<exists>xs. chain par x xs"
    unfolding search_inv_def by blast+
  from C assms(2) obtain xs where "chain par x xs" by (auto simp: dom_def)
  from chain_walk [OF this R E] show ?thesis by (auto simp: reachable_def)
qed

lemma bfs_inv_init: "bfs_inv G start [start] [start \<mapsto> None] []"
proof -
  have b1: "\<forall>x xs. chain [start \<mapsto> None] x xs \<longrightarrow> length xs = Suc (hops G start x)"
  proof (intro allI impI)
    fix x xs assume "chain [start \<mapsto> None] x xs"
    then have "x = start \<and> xs = [start]" by (cases rule: chain.cases) (auto split: if_splits)
    then show "length xs = Suc (hops G start x)" by (simp add: hops_start)
  qed
  have b5: "\<forall>y. [start] \<noteq> [] \<and> reachable G start y \<and> hops G start y \<le> hops G start (hd [start])
      \<longrightarrow> [start \<mapsto> None] y \<noteq> None"
    using hops_zero [of G start] by (auto simp: hops_start)
  show ?thesis unfolding bfs_inv_def using b1 b5 by simp
qed

lemma bfs_inv_step:
  assumes inv: "search_inv G start goal (v # q) par vo"
    and binv: "bfs_inv G start (v # q) par vo"
    and ns: "distinct ns" "set ns = {n. edge G v n}"
    and par': "par' = (\<lambda>x. if x \<in> set ns \<and> par x = None then Some (Some v) else par x)"
    and q': "q' = q @ filter (\<lambda>x. par x = None) ns"
  shows "bfs_inv G start q' par' (vo @ [v])"
proof -
  define h where "h = hops G start"
  from inv have DOM: "dom par = set vo \<union> set (v # q)"
    and C: "\<forall>x \<in> dom par. \<exists>xs. chain par x xs"
    and CL: "\<forall>u \<in> set vo. \<forall>n. edge G u n \<longrightarrow> par n \<noteq> None"
    unfolding search_inv_def by blast+
  from binv have B1: "\<forall>x xs. chain par x xs \<longrightarrow> length xs = Suc (h x)"
    and B2: "sorted (map h (v # q))"
    and B3: "\<forall>x \<in> set (v # q). h x \<le> Suc (h v)"
    and B4: "\<forall>u \<in> set vo. \<forall>x \<in> set (v # q). h u \<le> h x"
    and B5: "\<forall>y. reachable G start y \<and> h y \<le> h v \<longrightarrow> par y \<noteq> None"
    unfolding bfs_inv_def h_def by simp_all
  define new where "new = filter (\<lambda>x. par x = None) ns"
  have q'': "q' = q @ new" by (simp add: q' new_def)
  have new_set: "set new = {x \<in> set ns. par x = None}" by (auto simp: new_def)
  have vdom: "par v \<noteq> None" using DOM by (auto simp: dom_def)
  have rv: "reachable G start v" using inv vdom by (rule search_inv_reachable)
  have old: "\<And>x. par x \<noteq> None \<Longrightarrow> par' x = par x" by (simp add: par')
  have fresh: "\<And>x. x \<in> set new \<Longrightarrow> par' x = Some (Some v)" by (simp add: par' new_set)
  have dom': "dom par' = dom par \<union> set new"
    by (auto simp: par' new_set dom_def split: if_splits)
  have le: "par \<subseteq>\<^sub>m par'" by (auto simp: map_le_def par' dom_def)
  have hq: "\<And>x. x \<in> set q \<Longrightarrow> h v \<le> h x" using B2 by auto
  have hnew: "\<And>n. n \<in> set new \<Longrightarrow> h n = Suc (h v)"
  proof -
    fix n assume n: "n \<in> set new"
    then have e: "edge G v n" and pn: "par n = None" using ns(2) by (auto simp: new_set)
    from hops_edge [OF rv e] have r: "reachable G start n" and u: "h n \<le> Suc (h v)"
      by (simp_all add: h_def)
    have "\<not> h n \<le> h v" using B5 r pn by blast
    with u show "h n = Suc (h v)" by simp
  qed
  have chain_old: "\<And>x xs. par x \<noteq> None \<Longrightarrow> chain par' x xs \<Longrightarrow> length xs = Suc (h x)"
  proof -
    fix x xs assume x: "par x \<noteq> None" and c: "chain par' x xs"
    from x C obtain ys where ys: "chain par x ys" by (auto simp: dom_def)
    then have "chain par' x ys" using le by (rule chain_mono)
    with c have "xs = ys" by (rule chain_unique)
    with ys B1 show "length xs = Suc (h x)" by blast
  qed
  have b1: "\<forall>x xs. chain par' x xs \<longrightarrow> length xs = Suc (h x)"
  proof (intro allI impI)
    fix x xs assume c: "chain par' x xs"
    show "length xs = Suc (h x)"
    proof (cases "par x = None")
      case False
      then show ?thesis using c by (rule chain_old)
    next
      case True
      from c have "par' x \<noteq> None" by (cases rule: chain.cases) auto
      with True have xn: "x \<in> set new" by (simp add: par' new_set split: if_splits)
      from c fresh [OF xn] obtain zs where zs: "xs = zs @ [x]" "chain par' v zs"
        by (cases rule: chain.cases) auto
      from chain_old [OF vdom zs(2)] hnew [OF xn] zs(1) show ?thesis by simp
    qed
  qed
  have b2: "sorted (map h q')"
  proof -
    have "sorted (map h q)" using B2 by simp
    moreover have "sorted (map h new)" using hnew by (intro sorted_map_const [of _ _ "Suc (h v)"]) simp
    moreover have "\<forall>x \<in> set q. \<forall>y \<in> set new. h x \<le> h y" using B3 hnew by auto
    ultimately show ?thesis unfolding q'' by (simp add: sorted_append)
  qed
  have hd_ge: "q' \<noteq> [] \<Longrightarrow> h v \<le> h (hd q')"
  proof -
    assume "q' \<noteq> []"
    then have "hd q' \<in> set q'" by simp
    then show ?thesis using hq hnew unfolding q'' by auto
  qed
  have b3: "\<forall>x \<in> set q'. h x \<le> Suc (h (hd q'))"
  proof
    fix x assume x: "x \<in> set q'"
    then have "q' \<noteq> []" by auto
    from hd_ge [OF this] have "h v \<le> h (hd q')" .
    moreover have "h x \<le> Suc (h v)" using x B3 hnew unfolding q'' by auto
    ultimately show "h x \<le> Suc (h (hd q'))" by simp
  qed
  have b4: "\<forall>u \<in> set (vo @ [v]). \<forall>x \<in> set q'. h u \<le> h x"
  proof (intro ballI)
    fix u x assume u: "u \<in> set (vo @ [v])" and x: "x \<in> set q'"
    have "h u \<le> h v" using u B4 by auto
    moreover have "h v \<le> h x" using x hq hnew unfolding q'' by auto
    ultimately show "h u \<le> h x" by simp
  qed
  have b5: "\<forall>y. q' \<noteq> [] \<and> reachable G start y \<and> h y \<le> h (hd q') \<longrightarrow> par' y \<noteq> None"
  proof (intro allI impI)
    fix y assume a: "q' \<noteq> [] \<and> reachable G start y \<and> h y \<le> h (hd q')"
    then have ne: "q' \<noteq> []" and ry: "reachable G start y" and hy: "h y \<le> h (hd q')" by auto
    have hdq: "hd q' \<in> set q'" using ne by simp
    have up: "h (hd q') \<le> Suc (h v)" using hdq B3 hnew unfolding q'' by auto
    show "par' y \<noteq> None"
    proof (cases "h y \<le> h v")
      case True
      with B5 ry have "par y \<noteq> None" by blast
      then show ?thesis using old by simp
    next
      case False
      with hy up have hy': "h y = Suc (h v)" and hh: "h (hd q') = Suc (h v)" by auto
      have "y \<noteq> start" using hy' by (auto simp: h_def hops_start)
      from hops_pred [OF ry this] obtain u where u: "reachable G start u" "edge G u y" "h y = Suc (h u)"
        by (auto simp: h_def)
      with hy' have hu: "h u = h v" by simp
      with B5 u(1) have "par u \<noteq> None" by auto
      then have "u \<in> set vo \<or> u = v \<or> u \<in> set q" using DOM by (auto simp: dom_def)
      then show ?thesis
      proof (elim disjE)
        assume "u \<in> set vo"
        with CL u(2) have "par y \<noteq> None" by blast
        then show ?thesis using old by simp
      next
        assume "u = v"
        with u(2) ns(2) have "y \<in> set ns" by simp
        then show ?thesis by (simp add: par')
      next
        assume uq: "u \<in> set q"
        then have "q \<noteq> []" by auto
        then have "hd q' = hd q" unfolding q'' by simp
        moreover have "h (hd q) \<le> h u"
          using B2 uq \<open>q \<noteq> []\<close> by (cases q) auto
        ultimately show ?thesis using hh hu by simp
      qed
    qed
  qed
  show ?thesis unfolding bfs_inv_def using b1 b2 b3 b4 b5 unfolding h_def by blast
qed

lemma bfs_loop_shortest:
  "wf_graph G \<Longrightarrow> search_inv G start goal q par vo \<Longrightarrow> bfs_inv G start q par vo \<Longrightarrow>
   reachable G start goal \<Longrightarrow>
   \<exists>par' vo' p. bfs_loop G goal q par vo = Inr (par', vo') \<and> chain par' goal p \<and>
      length p = Suc (hops G start goal)"
proof (induction G goal q par vo rule: bfs_loop.induct)
  case (1 G goal par vo)
  have "search_done G start goal par vo" using "1.prems"(2) by (simp add: search_done_def)
  from search_done_found [OF this "1.prems"(4)] have "par goal \<noteq> None" .
  moreover from "1.prems"(2) have "dom par = set vo" "goal \<notin> set vo"
    unfolding search_inv_def by auto
  ultimately show ?case by (auto simp: dom_def)
next
  case (2 G goal v q par vo)
  note inv = "2.prems"(2) and binv = "2.prems"(3)
  show ?case
  proof (cases "v = goal")
    case True
    from inv have "dom par = set vo \<union> set (v # q)" and C: "\<forall>x \<in> dom par. \<exists>xs. chain par x xs"
      unfolding search_inv_def by blast+
    with True obtain p where p: "chain par goal p" by auto
    with binv have "length p = Suc (hops G start goal)" unfolding bfs_inv_def by blast
    with p True show ?thesis by auto
  next
    case False
    from inv have D: "distinct (vo @ v # q)" and N: "set (v # q) \<subseteq> set (nodes_of G)"
      unfolding search_inv_def by blast+
    then have hv: "has_node G v" by (simp add: has_node_def nodes_of_def)
    from neighbors_sorted_wf [OF "2.prems"(1) hv] obtain nbs where
      nbs: "neighbors_sorted G v = Inr nbs" "distinct nbs" "set nbs = {n. edge G v n}"
        "set nbs \<subseteq> set (nodes_of G)" by blast
    define par' where "par' = (\<lambda>x. if x \<in> set nbs \<and> par x = None then Some (Some v) else par x)"
    define q' where "q' = q @ filter (\<lambda>x. par x = None) nbs"
    have disc: "discover v nbs (par, q) = (par', q')"
      unfolding par'_def q'_def by (rule discover_eq [OF nbs(2)])
    have inv': "search_inv G start goal q' par' (vo @ [v])"
      using inv _ False _ _ _ nbs(2,3,4) par'_def q'_def
    proof (rule search_inv_step)
      show "v \<in> set (v # q)" by simp
      show "set (v # q) = insert v (set q)" by simp
      show "distinct q" "v \<notin> set q" using D by auto
    qed
    have binv': "bfs_inv G start q' par' (vo @ [v])"
      using inv binv nbs(2,3) par'_def q'_def by (rule bfs_inv_step)
    from "2.IH" [OF False nbs(1) disc [symmetric] "2.prems"(1) inv' binv' "2.prems"(4)]
    obtain par'' vo'' p where r: "bfs_loop G goal q' par' (vo @ [v]) = Inr (par'', vo'')"
      "chain par'' goal p" "length p = Suc (hops G start goal)" by blast
    have eq: "bfs_loop G goal (v # q) par vo = bfs_loop G goal q' par' (vo @ [v])"
      using False nbs(1) disc by simp
    show ?thesis
      by (rule exI [of _ par''], rule exI [of _ vo''], rule exI [of _ p]) (simp only: eq r)
  qed
qed

text \<open>
  C1. On a well-formed graph that holds \<open>start\<close> and \<open>goal\<close>, if some walk \<open>w\<close> leads
  from \<open>start\<close> to \<open>goal\<close>, the breadth-first search returns a path from \<open>start\<close> to
  \<open>goal\<close> that has no more edges than \<open>w\<close>: the returned path has the least number of
  edges among all walks from \<open>start\<close> to \<open>goal\<close>.
\<close>

theorem bfs_path_shortest:
  assumes "wf_graph G" and "has_node G start" and "has_node G goal"
    and "walk_from_to G start goal w"
  shows "\<exists>p vo. bfs_path G start goal = Some (Inr (p, vo)) \<and> walk_from_to G start goal p \<and>
           path_edge_count p \<le> path_edge_count w"
proof -
  have r: "reachable G start goal" using assms(4) by (auto simp: reachable_def)
  from bfs_loop_shortest [OF assms(1) search_inv_init [OF assms(2)] bfs_inv_init r]
  obtain par vo p where l: "bfs_loop G goal [start] [start \<mapsto> None] [] = Inr (par, vo)"
    and c: "chain par goal p" and len: "length p = Suc (hops G start goal)" by blast
  from bfs_loop_done [OF assms(1) search_inv_init [OF assms(2)], of goal] l
  have "search_done G start goal par vo" by auto
  from finish_done [OF this] r obtain p' where f: "finish start goal (Inr (par, vo)) = Some (Inr (p', vo))"
    and w': "walk_from_to G start goal p'" and c': "chain par goal p'" by auto
  from chain_unique [OF c c'] have pp: "p' = p" by simp
  from hops_le [OF assms(4)] len have "length p \<le> length w" by simp
  then have "path_edge_count p \<le> path_edge_count w" by (simp add: path_edge_count_def)
  with f w' pp l show ?thesis by (auto simp: bfs_path_def)
qed

lemma topology_has_camera: "has_node build_network_topology ''Camera_1''"
  by code_simp

lemma topology_walk:
  "walk_from_to build_network_topology ''ISP'' ''Camera_1''
     [''ISP'', ''Router'', ''Switch'', ''AP_2'', ''IoT_Hub'', ''Camera_1'']"
  by code_simp

theorem bfs_path_shortest_witness:
  "wf_graph build_network_topology \<and> has_node build_network_topology ''ISP'' \<and>
   has_node build_network_topology ''Camera_1'' \<and>
   walk_from_to build_network_topology ''ISP'' ''Camera_1''
     [''ISP'', ''Router'', ''Switch'', ''AP_2'', ''IoT_Hub'', ''Camera_1''] \<and>
   (\<exists>p vo. bfs_path build_network_topology ''ISP'' ''Camera_1'' = Some (Inr (p, vo)) \<and>
      walk_from_to build_network_topology ''ISP'' ''Camera_1'' p \<and>
      path_edge_count p \<le> path_edge_count [''ISP'', ''Router'', ''Switch'', ''AP_2'', ''IoT_Hub'', ''Camera_1''])"
  using bfs_path_shortest [OF topology_wf topology_has_isp topology_has_camera topology_walk]
    topology_wf topology_has_isp topology_has_camera topology_walk by blast

section \<open>Rounding to the nearest float\<close>

lemma pow2_powi: "pow2 e = 2 powi e"
  by (simp add: pow2_def power_int_def power_inverse inverse_eq_divide power_one_over)

lemma pow2_pos: "0 < pow2 e"
  by (simp add: pow2_powi)

lemma pow2_add: "pow2 (a + b) = pow2 a * pow2 b"
  by (simp add: pow2_powi power_int_add)

lemma pow2_diff: "pow2 (a - b) = pow2 a / pow2 b"
  by (simp add: pow2_powi power_int_diff)

lemma pow2_le: "a \<le> b \<Longrightarrow> pow2 a \<le> pow2 b"
  by (simp add: pow2_powi power_int_increasing)

lemma pow2_less: "a < b \<Longrightarrow> pow2 a < pow2 b"
  by (simp add: pow2_powi power_int_strict_increasing)

lemma pow2_less_iff: "pow2 a < pow2 b \<longleftrightarrow> a < b"
  using pow2_less [of a b] pow2_le [of b a] by (auto simp: not_less [symmetric])

lemma pow2_nat: "0 \<le> e \<Longrightarrow> pow2 e = of_int (2 ^ nat e)"
  by (simp add: pow2_def)

lemma ilog2_bounds:
  assumes "0 < q"
  shows "pow2 (ilog2 q) \<le> q \<and> q < pow2 (ilog2 q + 1)"
proof (cases "1 \<le> q")
  case True
  define n where "n = \<lfloor>q\<rfloor>"
  have n1: "1 \<le> n" using True by (simp add: n_def le_floor_iff)
  then have npos: "0 < n" by simp
  from bitlen_bounds [OF npos] have lo: "2 ^ nat (bitlen n - 1) \<le> n" and hi: "n < 2 ^ nat (bitlen n)"
    by auto
  have b1: "1 \<le> bitlen n" using npos bitlen_eq_zero_iff [of n] bitlen_nonneg [of n] by linarith
  have e: "ilog2 q = bitlen n - 1" using True by (simp add: ilog2_def n_def)
  have "pow2 (bitlen n - 1) = of_int (2 ^ nat (bitlen n - 1))" using b1 by (intro pow2_nat) simp
  also have "\<dots> \<le> of_int n" using lo by (simp only: of_int_le_iff)
  also have "\<dots> \<le> q" by (simp add: n_def)
  finally have l: "pow2 (ilog2 q) \<le> q" unfolding e .
  have "n + 1 \<le> 2 ^ nat (bitlen n)" using hi by simp
  then have "(of_int (n + 1) :: rat) \<le> of_int (2 ^ nat (bitlen n))" by (simp only: of_int_le_iff)
  moreover have "q < of_int (n + 1)" unfolding n_def by linarith
  moreover have "pow2 (bitlen n - 1 + 1) = of_int (2 ^ nat (bitlen n))"
    using b1 pow2_nat [of "bitlen n"] by simp
  ultimately have "q < pow2 (ilog2 q + 1)" unfolding e by simp
  with l show ?thesis by simp
next
  case False
  then have q1: "q < 1" by simp
  define r where "r = 1 / q"
  have r1: "1 < r" using assms q1 by (simp add: r_def)
  define m where "m = \<lceil>r\<rceil> - 1"
  have mlt: "of_int m < r" unfolding m_def by linarith
  have rle: "r \<le> of_int (m + 1)" unfolding m_def by simp
  have "1 < \<lceil>r\<rceil>" using r1 by (simp add: less_ceiling_iff)
  then have mpos: "0 < m" by (simp add: m_def)
  from bitlen_bounds [OF mpos] have lo: "2 ^ nat (bitlen m - 1) \<le> m" and hi: "m < 2 ^ nat (bitlen m)"
    by auto
  have b1: "1 \<le> bitlen m" using mpos bitlen_eq_zero_iff [of m] bitlen_nonneg [of m] by linarith
  define k where "k = bitlen m"
  have e: "ilog2 q = - k" using False by (simp add: ilog2_def m_def r_def k_def)
  have pk: "pow2 k = of_int (2 ^ nat k)" using b1 by (intro pow2_nat) (simp add: k_def)
  have pk1: "pow2 (k - 1) = of_int (2 ^ nat (k - 1))" using b1 by (intro pow2_nat) (simp add: k_def)
  have "m + 1 \<le> 2 ^ nat k" using hi by (simp add: k_def)
  then have "(of_int (m + 1) :: rat) \<le> of_int (2 ^ nat k)" by (simp only: of_int_le_iff)
  with rle have "r \<le> pow2 k" unfolding pk by simp
  then have "1 / pow2 k \<le> q" using assms pow2_pos [of k] by (simp add: r_def field_simps)
  then have l: "pow2 (- k) \<le> q" using pow2_diff [of 0 k] by (simp add: pow2_def)
  have "pow2 (k - 1) \<le> of_int m" unfolding pk1 using lo unfolding k_def by (simp only: of_int_le_iff)
  then have "pow2 (k - 1) < r" using mlt by (rule le_less_trans)
  then have "q < 1 / pow2 (k - 1)" using assms pow2_pos [of "k - 1"] by (simp add: r_def field_simps)
  then have "q < pow2 (- k + 1)" using pow2_diff [of 0 "k - 1"] by (simp add: pow2_def)
  with l show ?thesis unfolding e by simp
qed

lemma ilog2_unique:
  assumes "0 < q" and "pow2 e \<le> q" and "q < pow2 (e + 1)"
  shows "ilog2 q = e"
proof -
  from ilog2_bounds [OF assms(1)] have b: "pow2 (ilog2 q) \<le> q" "q < pow2 (ilog2 q + 1)" by auto
  have "pow2 e < pow2 (ilog2 q + 1)" using assms(2) b(2) by simp
  then have "e < ilog2 q + 1" by (simp add: pow2_less_iff)
  moreover have "pow2 (ilog2 q) < pow2 (e + 1)" using assms(3) b(1) by simp
  then have "ilog2 q < e + 1" by (simp add: pow2_less_iff)
  ultimately show ?thesis by simp
qed

lemma ilog2_mono:
  assumes "0 < a" and "a \<le> b"
  shows "ilog2 a \<le> ilog2 b"
proof -
  have "pow2 (ilog2 a) \<le> a" using ilog2_bounds [OF assms(1)] by simp
  also have "a \<le> b" by fact
  also have "b < pow2 (ilog2 b + 1)" using ilog2_bounds [of b] assms by simp
  finally show ?thesis by (simp add: pow2_less_iff)
qed

lemma rhe_of_int: "rhe (of_int n) = n"
  by (simp add: rhe_def)

lemma rhe_range: "\<lfloor>q\<rfloor> \<le> rhe q \<and> rhe q \<le> \<lfloor>q\<rfloor> + 1"
  by (simp add: rhe_def Let_def)

lemma rhe_mono:
  assumes "a \<le> b"
  shows "rhe a \<le> rhe b"
proof (cases "\<lfloor>a\<rfloor> = \<lfloor>b\<rfloor>")
  case True
  have "a - of_int \<lfloor>a\<rfloor> \<le> b - of_int \<lfloor>b\<rfloor>" using assms True by simp
  then show ?thesis unfolding rhe_def Let_def True by auto
next
  case False
  with assms have "\<lfloor>a\<rfloor> < \<lfloor>b\<rfloor>" using floor_mono [OF assms] by simp
  then have "\<lfloor>a\<rfloor> + 1 \<le> \<lfloor>b\<rfloor>" by simp
  with rhe_range [of a] rhe_range [of b] show ?thesis by linarith
qed

lemma rhe_le_int: "q \<le> of_int n \<Longrightarrow> rhe q \<le> n"
  using rhe_mono [of q "of_int n"] by (simp add: rhe_of_int)

lemma rhe_ge_int: "of_int n \<le> q \<Longrightarrow> n \<le> rhe q"
  using rhe_mono [of "of_int n" q] by (simp add: rhe_of_int)

lemma round_pos_eq:
  "round_pos q = of_int (rhe (q / pow2 (max (ilog2 q - 52) (- 1074)))) * pow2 (max (ilog2 q - 52) (- 1074))"
  by (simp add: round_pos_def Let_def)

lemma round_pos_nonneg:
  assumes "0 < q"
  shows "0 \<le> round_pos q"
proof -
  have "(of_int 0 :: rat) \<le> q / pow2 (max (ilog2 q - 52) (- 1074))"
    using assms pow2_pos [of "max (ilog2 q - 52) (- 1074)"] by (simp add: divide_nonneg_pos less_imp_le)
  then have "0 \<le> rhe (q / pow2 (max (ilog2 q - 52) (- 1074)))" by (rule rhe_ge_int)
  then show ?thesis
    unfolding round_pos_eq using pow2_pos [of "max (ilog2 q - 52) (- 1074)"] by (simp add: less_imp_le)
qed

lemma round_pos_mono:
  assumes "0 < a" and "a \<le> b"
  shows "round_pos a \<le> round_pos b"
proof -
  define ea where "ea = ilog2 a"
  define eb where "eb = ilog2 b"
  define pa where "pa = max (ea - 52) (- 1074)"
  define pb where "pb = max (eb - 52) (- 1074)"
  have bpos: "0 < b" using assms by simp
  have e: "ea \<le> eb" unfolding ea_def eb_def using assms by (rule ilog2_mono)
  then have p: "pa \<le> pb" by (simp add: pa_def pb_def)
  have ra: "round_pos a = of_int (rhe (a / pow2 pa)) * pow2 pa"
    by (simp add: round_pos_eq pa_def ea_def)
  have rb: "round_pos b = of_int (rhe (b / pow2 pb)) * pow2 pb"
    by (simp add: round_pos_eq pb_def eb_def)
  show ?thesis
  proof (cases "pa = pb")
    case True
    have "a / pow2 pb \<le> b / pow2 pb" using assms(2) pow2_pos [of pb] by (simp add: divide_right_mono)
    then have "rhe (a / pow2 pb) \<le> rhe (b / pow2 pb)" by (rule rhe_mono)
    then have "(of_int (rhe (a / pow2 pb)) :: rat) \<le> of_int (rhe (b / pow2 pb))" by simp
    then show ?thesis unfolding ra rb True using pow2_pos [of pb] by (simp add: mult_right_mono)
  next
    case False
    with p have lt: "pa < pb" by simp
    then have pb_eq: "pb = eb - 52" by (auto simp: pa_def pb_def)
    have "ea - 52 \<le> pa" by (simp add: pa_def)
    with lt pb_eq have ee: "ea + 1 \<le> eb" by simp
    have d0: "0 \<le> eb - pa" using lt pb_eq by simp
    \<comment> \<open>the power of two between them\<close>
    have "a < pow2 (ea + 1)" using ilog2_bounds [OF assms(1)] by (simp add: ea_def)
    also have "\<dots> \<le> pow2 eb" using ee by (rule pow2_le)
    finally have "a / pow2 pa \<le> pow2 eb / pow2 pa" using pow2_pos [of pa] by (simp add: divide_right_mono)
    also have "pow2 eb / pow2 pa = pow2 (eb - pa)" by (simp add: pow2_diff)
    also have "\<dots> = of_int (2 ^ nat (eb - pa))" using d0 by (rule pow2_nat)
    finally have "rhe (a / pow2 pa) \<le> 2 ^ nat (eb - pa)" by (rule rhe_le_int)
    then have "(of_int (rhe (a / pow2 pa)) :: rat) \<le> of_int (2 ^ nat (eb - pa))" by (simp only: of_int_le_iff)
    also have "\<dots> = pow2 (eb - pa)" using d0 by (simp add: pow2_nat)
    finally have "round_pos a \<le> pow2 (eb - pa) * pow2 pa"
      unfolding ra using pow2_pos [of pa] by (simp add: mult_right_mono)
    then have up: "round_pos a \<le> pow2 eb" by (simp add: pow2_add [symmetric])
    have "pow2 eb \<le> b" using ilog2_bounds [OF bpos] by (simp add: eb_def)
    then have "pow2 eb / pow2 pb \<le> b / pow2 pb" using pow2_pos [of pb] by (simp add: divide_right_mono)
    moreover have "pow2 eb / pow2 pb = of_int (2 ^ 52)"
      using pow2_nat [of 52] by (simp add: pow2_diff [symmetric] pb_eq)
    ultimately have "of_int (2 ^ 52) \<le> b / pow2 pb" by simp
    then have "2 ^ 52 \<le> rhe (b / pow2 pb)" by (rule rhe_ge_int)
    then have "(of_int (2 ^ 52) :: rat) \<le> of_int (rhe (b / pow2 pb))" by (simp only: of_int_le_iff)
    then have "of_int (2 ^ 52) * pow2 pb \<le> round_pos b"
      unfolding rb using pow2_pos [of pb] by (simp add: mult_right_mono)
    moreover have "of_int (2 ^ 52) * pow2 pb = pow2 eb"
      using pow2_nat [of 52] pow2_add [of 52 pb] by (simp add: pb_eq)
    ultimately have "pow2 eb \<le> round_pos b" by simp
    with up show ?thesis by simp
  qed
qed

lemma round_pos_exact_lt:
  assumes "0 < m" and "m < 2 ^ 53" and "- 1074 \<le> p"
  shows "round_pos (of_int m * pow2 p) = of_int m * pow2 p"
proof -
  define r where "r = of_int m * pow2 p"
  define p' where "p' = max (ilog2 r - 52) (- 1074)"
  have rpos: "0 < r" using assms(1) pow2_pos [of p] by (simp add: r_def)
  have "(of_int m :: rat) < of_int (2 ^ 53)" using assms(2) by (simp only: of_int_less_iff)
  then have "r < of_int (2 ^ 53) * pow2 p" unfolding r_def using pow2_pos [of p] by (simp add: mult_strict_right_mono)
  also have "of_int (2 ^ 53) * pow2 p = pow2 (53 + p)" using pow2_nat [of 53] by (simp add: pow2_add)
  finally have "pow2 (ilog2 r) < pow2 (53 + p)" using ilog2_bounds [OF rpos] by simp
  then have "ilog2 r < 53 + p" by (simp add: pow2_less_iff)
  then have le: "p' \<le> p" using assms(3) by (simp add: p'_def)
  then have d0: "0 \<le> p - p'" by simp
  have "r / pow2 p' = of_int m * pow2 (p - p')" by (simp add: r_def pow2_diff)
  also have "\<dots> = of_int (m * 2 ^ nat (p - p'))" using pow2_nat [OF d0] by simp
  finally have "rhe (r / pow2 p') = m * 2 ^ nat (p - p')" by (simp only: rhe_of_int)
  then have "round_pos r = of_int (m * 2 ^ nat (p - p')) * pow2 p'"
    by (simp add: round_pos_eq p'_def)
  also have "\<dots> = of_int m * (pow2 (p - p') * pow2 p')" using pow2_nat [OF d0] by simp
  also have "pow2 (p - p') * pow2 p' = pow2 p" by (simp add: pow2_add [symmetric])
  finally show ?thesis by (simp add: r_def)
qed

lemma round_pos_exact:
  assumes "0 < m" and "m \<le> 2 ^ 53" and "- 1074 \<le> p"
  shows "round_pos (of_int m * pow2 p) = of_int m * pow2 p"
proof (cases "m = 2 ^ 53")
  case False
  with assms show ?thesis by (intro round_pos_exact_lt) auto
next
  case True
  have "of_int m * pow2 p = of_int (2 ^ 52) * pow2 (p + 1)"
    using pow2_nat [of 1] by (simp add: True pow2_add)
  moreover have "round_pos (of_int (2 ^ 52) * pow2 (p + 1)) = of_int (2 ^ 52) * pow2 (p + 1)"
    using assms(3) by (intro round_pos_exact_lt) auto
  ultimately show ?thesis by simp
qed

lemma round_pos_grid:
  assumes "0 < q"
  shows "\<exists>m p. round_pos q = of_int m * pow2 p \<and> 0 \<le> m \<and> m \<le> 2 ^ 53 \<and> - 1074 \<le> p"
proof -
  define e where "e = ilog2 q"
  define p where "p = max (e - 52) (- 1074)"
  define m where "m = rhe (q / pow2 p)"
  have r: "round_pos q = of_int m * pow2 p" by (simp add: round_pos_eq m_def p_def e_def)
  have "(of_int 0 :: rat) \<le> q / pow2 p" using assms pow2_pos [of p] by (simp add: divide_nonneg_pos less_imp_le)
  then have m0: "0 \<le> m" unfolding m_def by (rule rhe_ge_int)
  have "q < pow2 (e + 1)" using ilog2_bounds [OF assms] by (simp add: e_def)
  also have "\<dots> \<le> pow2 (53 + p)" by (intro pow2_le) (simp add: p_def)
  finally have "q / pow2 p \<le> pow2 (53 + p) / pow2 p" using pow2_pos [of p] by (simp add: divide_right_mono)
  also have "\<dots> = of_int (2 ^ 53)" using pow2_nat [of 53] pow2_pos [of p] by (simp add: pow2_add)
  finally have m1: "m \<le> 2 ^ 53" unfolding m_def by (rule rhe_le_int)
  have "- 1074 \<le> p" by (simp add: p_def)
  with r m0 m1 show ?thesis by blast
qed

lemma fround_zero: "fround 0 = 0"
  by (simp add: fround_def)

lemma fround_nonneg: "0 \<le> q \<Longrightarrow> 0 \<le> fround q"
  using round_pos_nonneg [of q] by (auto simp: fround_def)

lemma fround_mono:
  assumes "0 \<le> a" and "a \<le> b"
  shows "fround a \<le> fround b"
proof (cases "a = 0")
  case True
  then show ?thesis using fround_nonneg [of b] assms by (simp add: fround_zero)
next
  case False
  with assms have "0 < a" "0 < b" by auto
  with assms(2) show ?thesis using round_pos_mono [of a b] by (simp add: fround_def)
qed

lemma fround_idem:
  assumes "0 \<le> q"
  shows "fround (fround q) = fround q"
proof (cases "q = 0")
  case True
  then show ?thesis by (simp add: fround_zero)
next
  case False
  with assms have qpos: "0 < q" by simp
  then have f: "fround q = round_pos q" by (simp add: fround_def)
  from round_pos_grid [OF qpos] obtain m p where
    g: "round_pos q = of_int m * pow2 p" "0 \<le> m" "m \<le> 2 ^ 53" "- 1074 \<le> p" by blast
  show ?thesis
  proof (cases "m = 0")
    case True
    with g(1) f show ?thesis by (simp add: fround_zero)
  next
    case False
    with g(2) have mpos: "0 < m" by simp
    then have "0 < round_pos q" unfolding g(1) using pow2_pos [of p] by simp
    moreover have "round_pos (round_pos q) = round_pos q"
      unfolding g(1) using mpos g(3,4) by (rule round_pos_exact)
    ultimately show ?thesis unfolding f by (simp add: fround_def)
  qed
qed

lemma fround_eval:
  assumes "0 < q" and "pow2 e \<le> q" and "q < pow2 (e + 1)"
  shows "fround q = of_int (rhe (q / pow2 (max (e - 52) (- 1074)))) * pow2 (max (e - 52) (- 1074))"
  using assms(1) ilog2_unique [OF assms] by (simp add: fround_def round_pos_eq)

lemma rhe_of_int_div:
  assumes "0 < b"
  shows "rhe (of_int a / of_int b) =
    (if 2 * (a mod b) < b then a div b else if b < 2 * (a mod b) then a div b + 1
     else if even (a div b) then a div b else a div b + 1)"
proof -
  have f: "\<lfloor>(of_int a / of_int b :: rat)\<rfloor> = a div b" by (rule floor_divide_of_int_eq)
  have bpos: "(0 :: rat) < of_int b" using assms by simp
  have "(of_int a :: rat) = of_int (a div b * b + a mod b)" by simp
  also have "\<dots> = of_int (a div b) * of_int b + of_int (a mod b)" by (simp only: of_int_add of_int_mult)
  finally have "(of_int a / of_int b :: rat) = of_int (a div b) + of_int (a mod b) / of_int b"
    using bpos by (simp add: field_simps)
  then have r: "(of_int a / of_int b :: rat) - of_int (a div b) = of_int (a mod b) / of_int b" by simp
  have lt: "(of_int (a mod b) / of_int b :: rat) < 1 / 2 \<longleftrightarrow> 2 * (a mod b) < b"
  proof -
    have "(of_int (a mod b) / of_int b :: rat) < 1 / 2 \<longleftrightarrow> (of_int (2 * (a mod b)) :: rat) < of_int b"
      using bpos by (simp add: field_simps)
    then show ?thesis by (simp only: of_int_less_iff)
  qed
  have gt: "(1 / 2 :: rat) < of_int (a mod b) / of_int b \<longleftrightarrow> b < 2 * (a mod b)"
  proof -
    have "(1 / 2 :: rat) < of_int (a mod b) / of_int b \<longleftrightarrow> (of_int b :: rat) < of_int (2 * (a mod b))"
      using bpos by (simp add: field_simps)
    then show ?thesis by (simp only: of_int_less_iff)
  qed
  show ?thesis unfolding rhe_def Let_def f r lt gt by simp
qed

lemma rhe_numeral_div:
  "rhe (numeral a / numeral b) =
    (if 2 * (numeral a mod numeral b) < (numeral b :: int) then numeral a div numeral b
     else if (numeral b :: int) < 2 * (numeral a mod numeral b) then numeral a div numeral b + 1
     else if even (numeral a div numeral b :: int) then numeral a div numeral b
     else numeral a div numeral b + 1)"
  using rhe_of_int_div [of "numeral b" "numeral a"] by simp

lemma rhe_numeral: "rhe (numeral a) = numeral a"
  using rhe_of_int [of "numeral a"] by simp

lemma fround_third: "fround (1 / 3) = 6004799503160661 / 18014398509481984"
  by (subst fround_eval [where e = "- 2"]) (simp_all add: pow2_def rhe_numeral_div)

lemma fround_max_plus_one: "fround (max_float + 1) = max_float"
  by (subst fround_eval [where e = 1023]) (simp_all add: pow2_def rhe_numeral_div max_float_def)

section \<open>Edge weights and the average degree\<close>

lemma fround_one: "fround 1 = 1"
  by (subst fround_eval [where e = 0]) (simp_all add: pow2_def rhe_numeral)

lemma fround_two_thirds: "fround (2 / 3) = 6004799503160661 / 9007199254740992"
  by (subst fround_eval [where e = "- 1"]) (simp_all add: pow2_def rhe_numeral_div)

lemma max_float_ge_one: "1 \<le> max_float"
  by (simp add: max_float_def)

lemma float_of_int_one: "float_of_int 1 = Inr (Fin 1)"
  using max_float_ge_one by (simp add: float_of_int_def fround_one Let_def)

lemma to_float_one: "to_float 1 = Fin 1"
  using max_float_ge_one by (simp add: to_float_def fround_one Let_def)

text \<open>
  C5, as the script behaves. An edge entered with speed 0 does not stop the load: the
  speed is raised to 1 and the edge gets the weight \<open>1.0\<close>.
\<close>

theorem invalid_speed_clamped_counterexample:
  "add_edge_weights (add_edges_from empty_graph [(''A'', ''B'', mk_edge ''wifi'' 0)]) =
     Inr \<lparr>node = [(''A'', None), (''B'', None)],
          adj = [(''A'', [(''B'', \<lparr>kind = Some ''wifi'', speed_mbps = Some 0, weight = Some (Fin 1)\<rparr>)]),
                 (''B'', [(''A'', \<lparr>kind = Some ''wifi'', speed_mbps = Some 0, weight = Some (Fin 1)\<rparr>)])]\<rparr>"
  by (simp add: add_edge_weights_def add_edges_from_def add_edge_def ensure_node_def set_adj_def
      has_node_def empty_graph_def mk_edge_def set_weight_def float_of_int_one to_float_one)

lemma fround_max_float: "fround max_float = max_float"
  by (subst fround_eval [where e = 1023]) (simp_all add: pow2_def rhe_numeral max_float_def)

lemma fround_speed:
  assumes "1 \<le> s" and "of_int s \<le> max_float"
  shows "1 \<le> fround (of_int s) \<and> fround (of_int s) \<le> max_float"
proof -
  have "fround 1 \<le> fround (of_int s)" using assms(1) by (intro fround_mono) simp_all
  moreover have "fround (of_int s) \<le> fround max_float" using assms by (intro fround_mono) simp_all
  ultimately show ?thesis by (simp add: fround_one fround_max_float)
qed

lemma clamped_speed_ge: "1 \<le> clamped_speed d"
  by (simp add: clamped_speed_def)

lemma set_weight_eq:
  assumes "of_int (clamped_speed d) \<le> max_float"
  shows "set_weight d = Inr (d\<lparr>weight := Some (derived_weight d)\<rparr>)"
proof -
  from fround_speed [OF clamped_speed_ge assms]
  have r: "1 \<le> fround (of_int (clamped_speed d))" "fround (of_int (clamped_speed d)) \<le> max_float"
    by simp_all
  from r have a: "\<bar>fround (of_int (clamped_speed d))\<bar> = fround (of_int (clamped_speed d))" by simp
  have f: "float_of_int (clamped_speed d) = Inr (Fin (fround (of_int (clamped_speed d))))"
    using r(2) by (simp add: float_of_int_def Let_def a)
  have n: "fround (of_int (clamped_speed d)) \<noteq> 0" using r(1) by simp
  have "set_weight d =
      (case float_of_int (clamped_speed d) of
         Inl e \<Rightarrow> Inl e
       | Inr f \<Rightarrow> (case one_over f of Inl e \<Rightarrow> Inl e | Inr w \<Rightarrow> Inr (d\<lparr>weight := Some w\<rparr>)))"
    by (simp add: set_weight_def clamped_speed_def Let_def)
  then show ?thesis using n by (simp add: f derived_weight_def)
qed

lemma set_weight_error:
  assumes "set_weight d = Inl e"
  shows "e = OverflowError \<and> \<not> of_int (clamped_speed d) \<le> max_float"
proof -
  have n: "\<not> of_int (clamped_speed d) \<le> max_float" using set_weight_eq [of d] assms by auto
  have s: "set_weight d =
      (case float_of_int (clamped_speed d) of
         Inl e \<Rightarrow> Inl e
       | Inr f \<Rightarrow> (case one_over f of Inl e \<Rightarrow> Inl e | Inr w \<Rightarrow> Inr (d\<lparr>weight := Some w\<rparr>)))"
    by (simp add: set_weight_def clamped_speed_def Let_def)
  have "fround 1 \<le> fround (of_int (clamped_speed d))"
    using clamped_speed_ge [of d] by (intro fround_mono) simp_all
  then have p: "fround (of_int (clamped_speed d)) \<noteq> 0" by (simp add: fround_one)
  have "e = OverflowError"
  proof (cases "max_float < \<bar>fround (of_int (clamped_speed d))\<bar>")
    case True
    then have "float_of_int (clamped_speed d) = Inl OverflowError" by (simp add: float_of_int_def Let_def)
    with s assms show ?thesis by simp
  next
    case False
    then have "float_of_int (clamped_speed d) = Inr (Fin (fround (of_int (clamped_speed d))))"
      by (simp add: float_of_int_def Let_def)
    with s assms p show ?thesis by simp
  qed
  with n show ?thesis by simp
qed

lemma weights_row_eq:
  assumes "\<forall>(v, d) \<in> set nbrs. of_int (clamped_speed d) \<le> max_float"
  shows "weights_row nbrs = Inr (map (\<lambda>(v, d). (v, d\<lparr>weight := Some (derived_weight d)\<rparr>)) nbrs)"
  using assms by (induction nbrs) (auto simp: set_weight_eq)

lemma weights_rows_eq:
  assumes "\<forall>(u, nbrs) \<in> set rows. \<forall>(v, d) \<in> set nbrs. of_int (clamped_speed d) \<le> max_float"
  shows "weights_rows rows =
    Inr (map (\<lambda>(u, nbrs). (u, map (\<lambda>(v, d). (v, d\<lparr>weight := Some (derived_weight d)\<rparr>)) nbrs)) rows)"
  using assms
proof (induction rows)
  case (Cons row rows)
  obtain u nbrs where row: "row = (u, nbrs)" by (cases row)
  from Cons.prems row have "\<forall>(v, d) \<in> set nbrs. of_int (clamped_speed d) \<le> max_float" by simp
  from weights_row_eq [OF this] Cons show ?case by (simp add: row)
qed simp

lemma weights_row_error:
  "weights_row nbrs = Inl e \<Longrightarrow> e = OverflowError"
  by (induction nbrs) (auto split: sum.splits dest: set_weight_error)

lemma weights_rows_error:
  "weights_rows rows = Inl e \<Longrightarrow> e = OverflowError"
  by (induction rows) (auto split: sum.splits dest: weights_row_error)

lemma add_edge_weights_eq:
  "speeds_in_range G \<Longrightarrow> add_edge_weights G = Inr (with_weights G)"
  unfolding speeds_in_range_def add_edge_weights_def with_weights_def
  by (simp add: weights_rows_eq)

lemma add_edge_weights_error:
  "add_edge_weights G = Inl e \<Longrightarrow> e = OverflowError"
  by (auto simp: add_edge_weights_def split: sum.splits dest: weights_rows_error)

lemma derived_weight_clamped:
  "speed_mbps d = Some s \<Longrightarrow> s \<le> 0 \<Longrightarrow> derived_weight d = Fin 1"
  by (simp add: derived_weight_def clamped_speed_def max_def fround_one to_float_one)

lemma with_weights_entry:
  assumes "(u, nbrs) \<in> set (adj G)" and "(v, d) \<in> set nbrs"
  shows "\<exists>nbrs'. (u, nbrs') \<in> set (adj (with_weights G)) \<and>
           (v, d\<lparr>weight := Some (derived_weight d)\<rparr>) \<in> set nbrs'"
proof -
  let ?f = "\<lambda>(v, d). (v, d\<lparr>weight := Some (derived_weight d)\<rparr>)"
  from assms(1) have "(u, map ?f nbrs) \<in> set (adj (with_weights G))"
    by (force simp: with_weights_def)
  moreover from assms(2) have "(v, d\<lparr>weight := Some (derived_weight d)\<rparr>) \<in> set (map ?f nbrs)"
    by force
  ultimately show ?thesis by blast
qed

lemma fround_three: "fround 3 = 3"
  by (subst fround_eval [where e = 1]) (simp_all add: pow2_def rhe_numeral)

lemma mixed_graph_eq:
  "mixed_graph =
     \<lparr>node = [(''A'', None), (''B'', None), (''C'', None), (''D'', None)],
      adj = [(''A'', [(''B'', \<lparr>kind = Some ''ethernet'', speed_mbps = Some 0, weight = None\<rparr>)]),
             (''B'', [(''A'', \<lparr>kind = Some ''ethernet'', speed_mbps = Some 0, weight = None\<rparr>),
                      (''C'', \<lparr>kind = Some ''wifi'', speed_mbps = Some (- 5), weight = None\<rparr>)]),
             (''C'', [(''B'', \<lparr>kind = Some ''wifi'', speed_mbps = Some (- 5), weight = None\<rparr>),
                      (''D'', \<lparr>kind = Some ''wifi'', speed_mbps = Some 3, weight = None\<rparr>)]),
             (''D'', [(''C'', \<lparr>kind = Some ''wifi'', speed_mbps = Some 3, weight = None\<rparr>)])]\<rparr>"
  by (simp add: mixed_graph_def add_edges_from_def add_edge_def ensure_node_def set_adj_def
      has_node_def empty_graph_def mk_edge_def)

lemma mixed_graph_in_range: "speeds_in_range mixed_graph"
  by (simp add: mixed_graph_eq speeds_in_range_def clamped_speed_def max_float_def)

lemma mixed_graph_weights:
  "with_weights mixed_graph =
     \<lparr>node = [(''A'', None), (''B'', None), (''C'', None), (''D'', None)],
      adj = [(''A'', [(''B'', \<lparr>kind = Some ''ethernet'', speed_mbps = Some 0, weight = Some (Fin 1)\<rparr>)]),
             (''B'', [(''A'', \<lparr>kind = Some ''ethernet'', speed_mbps = Some 0, weight = Some (Fin 1)\<rparr>),
                      (''C'', \<lparr>kind = Some ''wifi'', speed_mbps = Some (- 5), weight = Some (Fin 1)\<rparr>)]),
             (''C'', [(''B'', \<lparr>kind = Some ''wifi'', speed_mbps = Some (- 5), weight = Some (Fin 1)\<rparr>),
                      (''D'', \<lparr>kind = Some ''wifi'', speed_mbps = Some 3,
                               weight = Some (Fin (6004799503160661 / 18014398509481984))\<rparr>)]),
             (''D'', [(''C'', \<lparr>kind = Some ''wifi'', speed_mbps = Some 3,
                               weight = Some (Fin (6004799503160661 / 18014398509481984))\<rparr>)])]\<rparr>"
  by (simp add: mixed_graph_eq with_weights_def derived_weight_def clamped_speed_def
      fround_one fround_three fround_third to_float_def max_float_def)

text \<open>
  C5, amended. For every graph, of any number of nodes and edges, in which no speed is too
  large for a float: \<open>add_edge_weights\<close> does not fail, it returns the graph in which
  every adjacency entry has the weight \<open>1.0 / max(speed, 1)\<close>, and an entry whose
  \<open>speed_mbps\<close> is zero or negative is there with the weight \<open>1.0\<close>: the speed is raised to
  1 and the load goes on. The only error the load can end with is the \<open>OverflowError\<close> of
  a speed that is too large for a float.
\<close>

theorem invalid_speed_clamped:
  "(speeds_in_range G \<longrightarrow>
      add_edge_weights G = Inr (with_weights G) \<and>
      (\<forall>(u, nbrs) \<in> set (adj G). \<forall>(v, d) \<in> set nbrs. \<forall>s. speed_mbps d = Some s \<and> s \<le> 0 \<longrightarrow>
         (\<exists>nbrs'. (u, nbrs') \<in> set (adj (with_weights G)) \<and>
            (v, d\<lparr>weight := Some (Fin 1)\<rparr>) \<in> set nbrs'))) \<and>
   (\<forall>e. add_edge_weights G = Inl e \<longrightarrow> e = OverflowError \<and> \<not> speeds_in_range G)"
proof (intro conjI impI allI)
  assume "speeds_in_range G"
  then show "add_edge_weights G = Inr (with_weights G)" by (rule add_edge_weights_eq)
next
  show "\<forall>(u, nbrs) \<in> set (adj G). \<forall>(v, d) \<in> set nbrs. \<forall>s. speed_mbps d = Some s \<and> s \<le> 0 \<longrightarrow>
         (\<exists>nbrs'. (u, nbrs') \<in> set (adj (with_weights G)) \<and>
            (v, d\<lparr>weight := Some (Fin 1)\<rparr>) \<in> set nbrs')"
  proof (intro ballI, clarify)
    fix u nbrs v d s
    assume "(u, nbrs) \<in> set (adj G)" "(v, d) \<in> set nbrs" "speed_mbps d = Some s" "s \<le> 0"
    from with_weights_entry [OF this(1,2)] derived_weight_clamped [OF this(3,4)]
    show "\<exists>nbrs'. (u, nbrs') \<in> set (adj (with_weights G)) \<and>
            (v, d\<lparr>weight := Some (Fin 1)\<rparr>) \<in> set nbrs'" by simp
  qed
next
  fix e assume "add_edge_weights G = Inl e"
  then show "e = OverflowError" by (rule add_edge_weights_error)
next
  fix e assume "add_edge_weights G = Inl e"
  then show "\<not> speeds_in_range G" using add_edge_weights_eq [of G] by auto
qed

theorem invalid_speed_clamped_witness:
  "speeds_in_range mixed_graph \<and>
   add_edge_weights mixed_graph =
     Inr \<lparr>node = [(''A'', None), (''B'', None), (''C'', None), (''D'', None)],
      adj = [(''A'', [(''B'', \<lparr>kind = Some ''ethernet'', speed_mbps = Some 0, weight = Some (Fin 1)\<rparr>)]),
             (''B'', [(''A'', \<lparr>kind = Some ''ethernet'', speed_mbps = Some 0, weight = Some (Fin 1)\<rparr>),
                      (''C'', \<lparr>kind = Some ''wifi'', speed_mbps = Some (- 5), weight = Some (Fin 1)\<rparr>)]),
             (''C'', [(''B'', \<lparr>kind = Some ''wifi'', speed_mbps = Some (- 5), weight = Some (Fin 1)\<rparr>),
                      (''D'', \<lparr>kind = Some ''wifi'', speed_mbps = Some 3,
                               weight = Some (Fin (6004799503160661 / 18014398509481984))\<rparr>)]),
             (''D'', [(''C'', \<lparr>kind = Some ''wifi'', speed_mbps = Some 3,
                               weight = Some (Fin (6004799503160661 / 18014398509481984))\<rparr>)])]\<rparr>"
  using invalid_speed_clamped [of mixed_graph] mixed_graph_in_range mixed_graph_weights by simp

lemma island_degrees: "number_of_nodes island_graph = 3 \<and> sum_list (map snd (degrees island_graph)) = 2"
  by code_simp

lemma avg_degree_island: "avg_degree island_graph = Inr (Fin (6004799503160661 / 9007199254740992))"
  using island_degrees
  by (simp add: avg_degree_def int_true_div_def Let_def fround_two_thirds max_float_def)

text \<open>
  C9. The average degree of a graph without nodes fails, with the \<open>ZeroDivisionError\<close>
  of the division \<open>sum(degrees.values()) / n\<close>; for a graph with nodes it is that
  quotient, as a float: the exact quotient rounded once (when the rounded quotient is in
  the range of the floats, as it is unless the graph has more than \<open>10 ^ 308\<close> nodes).
\<close>

theorem average_degree:
  "(number_of_nodes G = 0 \<longrightarrow> avg_degree G = Inl ZeroDivisionError) \<and>
   (number_of_nodes G \<noteq> 0 \<longrightarrow>
      avg_degree G = int_true_div (int (sum_list (map snd (degrees G)))) (int (number_of_nodes G)) \<and>
      avg_degree G \<noteq> Inl ZeroDivisionError) \<and>
   (number_of_nodes G \<noteq> 0 \<and>
    \<bar>fround (of_nat (sum_list (map snd (degrees G))) / of_nat (number_of_nodes G))\<bar> \<le> max_float \<longrightarrow>
      avg_degree G = Inr (Fin (fround (of_nat (sum_list (map snd (degrees G))) / of_nat (number_of_nodes G)))))"
  by (auto simp: avg_degree_def int_true_div_def Let_def)

theorem average_degree_witness:
  "number_of_nodes (empty_graph :: string graph) = 0 \<and>
   avg_degree (empty_graph :: string graph) = Inl ZeroDivisionError \<and>
   number_of_nodes island_graph = 3 \<and> sum_list (map snd (degrees island_graph)) = 2 \<and>
   avg_degree island_graph = int_true_div 2 3 \<and>
   avg_degree island_graph = Inr (Fin (6004799503160661 / 9007199254740992))"
proof -
  have e: "number_of_nodes (empty_graph :: string graph) = 0"
    by (simp add: number_of_nodes_def empty_graph_def)
  have n: "number_of_nodes island_graph = 3" using island_degrees by simp
  have s: "sum_list (map snd (degrees island_graph)) = 2" using island_degrees by simp
  from average_degree [of "empty_graph :: string graph"] e
  have a: "avg_degree (empty_graph :: string graph) = Inl ZeroDivisionError" by blast
  from average_degree [of island_graph] n
  have "avg_degree island_graph =
      int_true_div (int (sum_list (map snd (degrees island_graph)))) (int (number_of_nodes island_graph))"
    by simp
  then have b: "avg_degree island_graph = int_true_div 2 3" by (simp add: n s)
  show ?thesis using e a n s b avg_degree_island by simp
qed

section \<open>The shortest-distance loop\<close>

lemma fle_refl: "fle x x"
  by (cases x) (simp_all add: fle_def)

lemma fle_trans: "fle x y \<Longrightarrow> fle y z \<Longrightarrow> fle x z"
  by (cases x; cases y; cases z) (simp_all add: fle_def)

lemma fle_antisym: "fle x y \<Longrightarrow> fle y x \<Longrightarrow> x = y"
  by (cases x; cases y) (simp_all add: fle_def)

lemma fle_total: "fle x y \<or> fle y x"
  by (cases x; cases y) (auto simp: fle_def)

lemma fless_fle: "fless x y \<Longrightarrow> fle x y"
  by (cases x; cases y) (simp_all add: fle_def)

lemma fless_finite: "fless x y \<Longrightarrow> x \<noteq> PInf"
  by (cases x) simp_all

lemma fle_fless_trans: "fle x y \<Longrightarrow> fless y z \<Longrightarrow> fless x z"
  by (cases x; cases y; cases z) (simp_all add: fle_def)

lemma fle_inf: "fle x PInf"
  by (cases x) (simp_all add: fle_def)

lemma fle_finite: "fle x y \<Longrightarrow> y \<noteq> PInf \<Longrightarrow> x \<noteq> PInf"
  by (cases x; cases y) (simp_all add: fle_def)

lemma unit_weight_is_float: "unit_weight w \<Longrightarrow> is_float w"
proof (cases w)
  case (Fin r)
  assume "unit_weight w"
  with Fin have "0 < r" "r \<le> 1" "fround r = r" by auto
  moreover have "1 \<le> max_float" by (simp add: max_float_def)
  ultimately show ?thesis using Fin by simp
qed simp

lemma positive_weight_is_float: "positive_weight w \<Longrightarrow> is_float w"
  by (cases w) auto

lemma to_float_is_float: "0 \<le> q \<Longrightarrow> is_float (to_float q)"
  using fround_nonneg [of q] fround_idem [of q] by (simp add: to_float_def Let_def)

lemma fadd_is_float: "is_float x \<Longrightarrow> is_float y \<Longrightarrow> is_float (fadd x y)"
  by (cases x; cases y) (simp_all add: to_float_is_float)

lemma to_float_mono:
  assumes "0 \<le> a" and "a \<le> b"
  shows "fle (to_float a) (to_float b)"
  using fround_mono [OF assms] by (simp add: to_float_def Let_def fle_def)

lemma to_float_exact: "is_float (Fin r) \<Longrightarrow> to_float r = Fin r"
  by (simp add: to_float_def Let_def)

lemma fadd_ge:
  assumes "is_float x" and "is_float w"
  shows "fle x (fadd x w)"
proof (cases x)
  case (Fin a)
  show ?thesis
  proof (cases w)
    case (Fin b)
    from assms \<open>x = Fin a\<close> Fin have a: "0 \<le> a" "is_float (Fin a)" and b: "0 \<le> b" by auto
    have "fle (to_float a) (to_float (a + b))" using a(1) b by (intro to_float_mono) auto
    then show ?thesis using \<open>x = Fin a\<close> Fin to_float_exact [OF a(2)] by simp
  next
    case PInf
    then show ?thesis by (simp add: fle_inf)
  qed
next
  case PInf
  then show ?thesis by (simp add: fle_inf)
qed

lemma fadd_mono:
  assumes "is_float x" and "is_float y" and "is_float w" and "fle x y"
  shows "fle (fadd x w) (fadd y w)"
proof (cases y)
  case PInf
  then show ?thesis by (simp add: fle_inf)
next
  case (Fin b)
  with assms(4) obtain a where xa: "x = Fin a" and ab: "a \<le> b" by (cases x) (auto simp: fle_def)
  show ?thesis
  proof (cases w)
    case PInf
    then show ?thesis by (simp add: fle_inf xa Fin)
  next
    case (Fin c)
    from assms xa Fin have "0 \<le> a" "0 \<le> c" by auto
    then have "fle (to_float (a + c)) (to_float (b + c))" using ab by (intro to_float_mono) auto
    then show ?thesis using xa \<open>y = Fin b\<close> Fin by simp
  qed
qed

lemma fadd_zero: "is_float w \<Longrightarrow> fadd (Fin 0) w = w"
  by (cases w) (simp_all add: to_float_def Let_def)

lemma fadd_unit_finite:
  assumes "is_float x" and "x \<noteq> PInf" and "unit_weight w"
  shows "fadd x w \<noteq> PInf"
proof -
  from assms(1,2) obtain a where x: "x = Fin a" and a: "0 \<le> a" "a \<le> max_float" by (cases x) auto
  from assms(3) obtain b where w: "w = Fin b" and b: "0 < b" "b \<le> 1" by (cases w) auto
  have "fround (a + b) \<le> fround (max_float + 1)" using a b by (intro fround_mono) auto
  then have "fround (a + b) \<le> max_float" by (simp add: fround_max_plus_one)
  then show ?thesis by (simp add: x w to_float_def Let_def)
qed

lemma entry_le_refl: "entry_le x x"
  by (simp add: entry_le_def)

lemma entry_le_total: "entry_le x y \<or> entry_le y x"
  by (cases "fst x"; cases "fst y") (auto simp: entry_le_def)

lemma entry_le_trans: "entry_le x y \<Longrightarrow> entry_le y z \<Longrightarrow> entry_le x z"
  by (cases "fst x"; cases "fst y"; cases "fst z") (auto simp: entry_le_def)

lemma entry_le_fle: "entry_le x y \<Longrightarrow> fle (fst x) (fst y)"
  by (auto simp: entry_le_def fless_fle fle_refl)

lemma heap_min_mem: "heap_min m xs \<in> set (m # xs)"
  by (induction xs arbitrary: m) (auto split: if_splits)

lemma heap_min_le: "y \<in> set (m # xs) \<Longrightarrow> entry_le (heap_min m xs) y"
proof (induction xs arbitrary: m y)
  case Nil
  then show ?case by (simp add: entry_le_refl)
next
  case (Cons x xs)
  define m' where "m' = (if entry_le m x then m else x)"
  have m'm: "entry_le m' m" and m'x: "entry_le m' x"
    using entry_le_total [of m x] by (auto simp: m'_def entry_le_refl)
  have h: "heap_min m (x # xs) = heap_min m' xs" by (simp add: m'_def)
  have hm': "entry_le (heap_min m' xs) m'" by (rule Cons.IH) simp
  from Cons.prems consider "y = m" | "y = x" | "y \<in> set xs" by auto
  then show ?case
  proof cases
    case 1
    then show ?thesis unfolding h using hm' m'm by (blast intro: entry_le_trans)
  next
    case 2
    then show ?thesis unfolding h using hm' m'x by (blast intro: entry_le_trans)
  next
    case 3
    then show ?thesis unfolding h by (intro Cons.IH) simp
  qed
qed

lemma heappop_min:
  assumes "pq \<noteq> []" and "heappop pq = ((c, u), pq')"
  shows "(c, u) \<in> set pq \<and> pq' = remove1 (c, u) pq \<and> (\<forall>e \<in> set pq. fle c (fst e))"
proof -
  from assms(1) obtain m xs where pq: "pq = m # xs" by (cases pq) auto
  from assms(2) have "(c, u) = heap_min (hd pq) (tl pq)" and r: "pq' = remove1 (c, u) pq"
    by (auto simp: heappop_def Let_def)
  then have cu: "(c, u) = heap_min m xs" by (simp add: pq)
  have "(c, u) \<in> set pq" unfolding cu pq by (rule heap_min_mem)
  moreover have "\<forall>e \<in> set pq. fle c (fst e)"
  proof
    fix e assume "e \<in> set pq"
    then have "entry_le (heap_min m xs) e" unfolding pq by (rule heap_min_le)
    then have "entry_le (c, u) e" by (simp only: cu)
    from entry_le_fle [OF this] show "fle c (fst e)" by simp
  qed
  ultimately show ?thesis using r by simp
qed

lemma relax_eq:
  "distinct (map fst nbrs) \<Longrightarrow> (\<forall>(v, d) \<in> set nbrs. dists v \<noteq> None) \<Longrightarrow>
   relax c nbrs (dists, pq) = Inr (relaxed c nbrs dists, pq @ pushed c nbrs dists)"
proof (induction nbrs arbitrary: dists pq)
  case Nil
  then show ?case by (simp add: relaxed_def pushed_def)
next
  case (Cons e nbrs)
  obtain v d where e: "e = (v, d)" by (cases e)
  from Cons.prems e have dn: "distinct (map fst nbrs)" and vn: "v \<notin> fst ` set nbrs"
    and all: "\<forall>(v, d) \<in> set nbrs. dists v \<noteq> None" by auto
  from Cons.prems e obtain dv where dv: "dists v = Some dv" by auto
  define nd where "nd = fadd c (wt d)"
  have mv: "map_of nbrs v = None" using vn by (simp add: map_of_eq_None_iff)
  show ?case
  proof (cases "fless nd dv")
    case True
    define dists1 where "dists1 = dists(v \<mapsto> nd)"
    have all1: "\<forall>(v, d) \<in> set nbrs. dists1 v \<noteq> None" using all by (auto simp: dists1_def)
    have r: "relax c (e # nbrs) (dists, pq) = relax c nbrs (dists1, pq @ [(nd, v)])"
      using True dv by (simp add: e nd_def wt_def dists1_def heappush_def Let_def)
    have a: "relaxed c nbrs dists1 = relaxed c (e # nbrs) dists"
      using True dv mv by (auto simp: relaxed_def dists1_def e nd_def fun_eq_iff split: option.splits)
    have "filter (\<lambda>(w, d). case dists1 w of None \<Rightarrow> False | Some dw \<Rightarrow> fless (fadd c (wt d)) dw) nbrs
        = filter (\<lambda>(w, d). case dists w of None \<Rightarrow> False | Some dw \<Rightarrow> fless (fadd c (wt d)) dw) nbrs"
    proof (intro filter_cong refl)
      fix x assume x: "x \<in> set nbrs"
      then have "fst x \<noteq> v" using vn by auto
      then show "(case x of (w, d) \<Rightarrow> case dists1 w of None \<Rightarrow> False | Some dw \<Rightarrow> fless (fadd c (wt d)) dw)
          = (case x of (w, d) \<Rightarrow> case dists w of None \<Rightarrow> False | Some dw \<Rightarrow> fless (fadd c (wt d)) dw)"
        by (cases x) (simp add: dists1_def)
    qed
    then have b: "[(nd, v)] @ pushed c nbrs dists1 = pushed c (e # nbrs) dists"
      using True dv by (simp add: pushed_def e nd_def)
    show ?thesis unfolding r Cons.IH [OF dn all1] a using b by simp
  next
    case False
    have r: "relax c (e # nbrs) (dists, pq) = relax c nbrs (dists, pq)"
      using False dv by (simp add: e nd_def wt_def Let_def)
    have a: "relaxed c nbrs dists = relaxed c (e # nbrs) dists"
      using False dv mv by (auto simp: relaxed_def e nd_def fun_eq_iff split: option.splits)
    have b: "pushed c nbrs dists = pushed c (e # nbrs) dists"
      using False dv by (simp add: pushed_def e nd_def)
    show ?thesis unfolding r Cons.IH [OF dn all] a b by simp
  qed
qed

lemma fless_irrefl: "\<not> fless x x"
  by (cases x) simp_all

lemma is_float_not_neg: "is_float x \<Longrightarrow> \<not> fless x (Fin 0)"
  by (cases x) auto

lemma dom_relaxed: "dom (relaxed c nbrs dists) = dom dists"
  by (auto simp: relaxed_def dom_def split: option.splits if_splits)

lemma relaxed_cases:
  assumes "relaxed c nbrs dists x = Some d'"
  shows "dists x = Some d' \<or>
         (\<exists>d dx. map_of nbrs x = Some d \<and> dists x = Some dx \<and> fless (fadd c (wt d)) dx \<and> d' = fadd c (wt d))"
  using assms by (auto simp: relaxed_def split: option.splits if_splits)

lemma relaxed_decreases:
  assumes "dists x = Some dx"
  shows "\<exists>dx'. relaxed c nbrs dists x = Some dx' \<and> fle dx' dx"
  using assms by (auto simp: relaxed_def fle_refl fless_fle split: option.splits)

lemma relaxed_neighbor:
  assumes "map_of nbrs x = Some d" and "dists x = Some dx"
  shows "\<exists>dx'. relaxed c nbrs dists x = Some dx' \<and> fle dx' (fadd c (wt d))"
  using assms by (auto simp: relaxed_def fle_def fless_irrefl)

lemma pushed_iff:
  assumes "distinct (map fst nbrs)"
  shows "(e, x) \<in> set (pushed c nbrs dists) \<longleftrightarrow>
         (\<exists>d dx. map_of nbrs x = Some d \<and> dists x = Some dx \<and> fless (fadd c (wt d)) dx \<and> e = fadd c (wt d))"
proof
  assume "(e, x) \<in> set (pushed c nbrs dists)"
  then obtain d where m: "(x, d) \<in> set nbrs" and e: "e = fadd c (wt d)"
    and t: "case dists x of None \<Rightarrow> False | Some dv \<Rightarrow> fless (fadd c (wt d)) dv"
    by (auto simp: pushed_def)
  from m assms have "map_of nbrs x = Some d" by simp
  with e t show "\<exists>d dx. map_of nbrs x = Some d \<and> dists x = Some dx \<and> fless (fadd c (wt d)) dx \<and> e = fadd c (wt d)"
    by (auto split: option.splits)
next
  assume "\<exists>d dx. map_of nbrs x = Some d \<and> dists x = Some dx \<and> fless (fadd c (wt d)) dx \<and> e = fadd c (wt d)"
  then obtain d dx where m: "map_of nbrs x = Some d" and "dists x = Some dx" "fless (fadd c (wt d)) dx"
    "e = fadd c (wt d)" by blast
  moreover from m have "(x, d) \<in> set nbrs" by (rule map_of_SomeD)
  ultimately show "(e, x) \<in> set (pushed c nbrs dists)" by (force simp: pushed_def)
qed

lemma pushed_relaxed:
  assumes "distinct (map fst nbrs)" and "(e, x) \<in> set (pushed c nbrs dists)"
  shows "relaxed c nbrs dists x = Some e"
  using assms(2) unfolding pushed_iff [OF assms(1)] by (auto simp: relaxed_def)

lemma relaxed_changed:
  assumes "distinct (map fst nbrs)" and "relaxed c nbrs dists x \<noteq> dists x"
  shows "\<exists>e. relaxed c nbrs dists x = Some e \<and> (e, x) \<in> set (pushed c nbrs dists)"
  using assms(2) unfolding pushed_iff [OF assms(1)]
  by (auto simp: relaxed_def split: option.splits if_splits)

lemma distinct_pushed:
  assumes "distinct (map fst nbrs)"
  shows "distinct (pushed c nbrs dists)"
proof -
  have "map snd (pushed c nbrs dists) =
      map fst (filter (\<lambda>(v, d). case dists v of None \<Rightarrow> False | Some dv \<Rightarrow> fless (fadd c (wt d)) dv) nbrs)"
    by (simp add: pushed_def case_prod_unfold comp_def)
  moreover have "distinct (map fst (filter (\<lambda>(v, d). case dists v of None \<Rightarrow> False | Some dv \<Rightarrow> fless (fadd c (wt d)) dv) nbrs))"
    using assms by (rule distinct_map_filter)
  ultimately have "distinct (map snd (pushed c nbrs dists))" by simp
  then show ?thesis by (simp add: distinct_map)
qed

lemma accumulate_snoc:
  "p \<noteq> [] \<Longrightarrow> accumulate G c (p @ [v]) = fadd (accumulate G c p) (edge_weight G (last p) v)"
  by (induction G c p rule: accumulate.induct) auto

lemma walk_cost_snoc:
  "p \<noteq> [] \<Longrightarrow> walk_cost G (p @ [v]) = fadd (walk_cost G p) (edge_weight G (last p) v)"
  by (simp add: walk_cost_def accumulate_snoc)

lemma adj_row:
  assumes "wf_graph G" and "map_of (adj G) u = Some nbrs"
  shows "distinct (map fst nbrs)"
    and "\<And>v d. map_of nbrs v = Some d \<Longrightarrow> has_node G v"
    and "\<And>v. edge G u v \<longleftrightarrow> map_of nbrs v \<noteq> None"
    and "\<And>v d. map_of nbrs v = Some d \<Longrightarrow> edge_weight G u v = wt d"
proof -
  from assms(2) have mem: "(u, nbrs) \<in> set (adj G)" by (rule map_of_SomeD)
  with assms(1) show "distinct (map fst nbrs)" unfolding wf_graph_def by blast
  show e: "\<And>v. edge G u v \<longleftrightarrow> map_of nbrs v \<noteq> None"
    using assms(2) by (simp add: edge_def map_of_eq_None_iff)
  show "\<And>v d. map_of nbrs v = Some d \<Longrightarrow> has_node G v"
  proof -
    fix v d assume "map_of nbrs v = Some d"
    then have "edge G u v" using e by simp
    with assms(1) show "has_node G v" by (rule edge_has_node)
  qed
  show "\<And>v d. map_of nbrs v = Some d \<Longrightarrow> edge_weight G u v = wt d"
    using assms(2) by (simp add: edge_weight_def)
qed

lemma dijkstra_invD:
  assumes "dijkstra_inv G start dists pq"
  shows "dom dists = set (nodes_of G)"
    and "dists start = Some (Fin 0)"
    and "\<And>x d. dists x = Some d \<Longrightarrow> is_float d"
    and "\<And>d x. (d, x) \<in> set pq \<Longrightarrow> d \<noteq> PInf \<and> is_float d \<and> (\<exists>dx. dists x = Some dx \<and> fle dx d)"
    and "\<And>x d. dists x = Some d \<Longrightarrow> d \<noteq> PInf \<Longrightarrow> \<exists>p. walk_from_to G start x p \<and> walk_cost G p = d"
    and "\<And>u du v. u \<in> settled dists pq \<Longrightarrow> dists u = Some du \<Longrightarrow> edge G u v \<Longrightarrow>
               \<exists>dv. dists v = Some dv \<and> fle dv (fadd du (edge_weight G u v))"
    and "\<And>u du d x. u \<in> settled dists pq \<Longrightarrow> dists u = Some du \<Longrightarrow> (d, x) \<in> set pq \<Longrightarrow> fle du d"
    and "distinct pq"
proof -
  from assms have a1: "dom dists = set (nodes_of G)"
    and a2: "dists start = Some (Fin 0)"
    and a3: "\<forall>x d. dists x = Some d \<longrightarrow> is_float d"
    and a4: "\<forall>(d, x) \<in> set pq. d \<noteq> PInf \<and> is_float d \<and> (\<exists>dx. dists x = Some dx \<and> fle dx d)"
    and a5: "\<forall>x d. dists x = Some d \<and> d \<noteq> PInf \<longrightarrow> (\<exists>p. walk_from_to G start x p \<and> walk_cost G p = d)"
    and a6: "\<forall>u \<in> settled dists pq. \<forall>du. dists u = Some du \<longrightarrow>
         (\<forall>v. edge G u v \<longrightarrow> (\<exists>dv. dists v = Some dv \<and> fle dv (fadd du (edge_weight G u v))))"
    and a7: "\<forall>u \<in> settled dists pq. \<forall>du. dists u = Some du \<longrightarrow> (\<forall>(d, x) \<in> set pq. fle du d)"
    and a8: "distinct pq"
    unfolding dijkstra_inv_def by simp_all
  show "dom dists = set (nodes_of G)" by (rule a1)
  show "dists start = Some (Fin 0)" by (rule a2)
  show "\<And>x d. dists x = Some d \<Longrightarrow> is_float d" using a3 by blast
  show "\<And>d x. (d, x) \<in> set pq \<Longrightarrow> d \<noteq> PInf \<and> is_float d \<and> (\<exists>dx. dists x = Some dx \<and> fle dx d)"
    using a4 by fast
  show "\<And>x d. dists x = Some d \<Longrightarrow> d \<noteq> PInf \<Longrightarrow> \<exists>p. walk_from_to G start x p \<and> walk_cost G p = d"
    using a5 by blast
  show "\<And>u du v. u \<in> settled dists pq \<Longrightarrow> dists u = Some du \<Longrightarrow> edge G u v \<Longrightarrow>
               \<exists>dv. dists v = Some dv \<and> fle dv (fadd du (edge_weight G u v))"
    using a6 by blast
  show "\<And>u du d x. u \<in> settled dists pq \<Longrightarrow> dists u = Some du \<Longrightarrow> (d, x) \<in> set pq \<Longrightarrow> fle du d"
    using a7 by fast
  show "distinct pq" by (rule a8)
qed

lemma dijkstra_invI:
  assumes "dom dists = set (nodes_of G)"
    and "dists start = Some (Fin 0)"
    and "\<forall>x d. dists x = Some d \<longrightarrow> is_float d"
    and "\<forall>(d, x) \<in> set pq. d \<noteq> PInf \<and> is_float d \<and> (\<exists>dx. dists x = Some dx \<and> fle dx d)"
    and "\<forall>x d. dists x = Some d \<and> d \<noteq> PInf \<longrightarrow> (\<exists>p. walk_from_to G start x p \<and> walk_cost G p = d)"
    and "\<forall>u \<in> settled dists pq. \<forall>du. dists u = Some du \<longrightarrow>
         (\<forall>v. edge G u v \<longrightarrow> (\<exists>dv. dists v = Some dv \<and> fle dv (fadd du (edge_weight G u v))))"
    and "\<forall>u \<in> settled dists pq. \<forall>du. dists u = Some du \<longrightarrow> (\<forall>(d, x) \<in> set pq. fle du d)"
    and "distinct pq"
  shows "dijkstra_inv G start dists pq"
  unfolding dijkstra_inv_def using assms by (intro conjI)

lemma dijkstra_expand:
  assumes inv: "dijkstra_inv G start dists pq"
    and wf: "wf_graph G"
    and fl: "\<And>v d. map_of nbrs v = Some d \<Longrightarrow> is_float (wt d)"
    and cu: "(c, u) \<in> set pq"
    and least: "\<forall>e \<in> set pq. fle c (fst e)"
    and du: "dists u = Some du"
    and ns: "\<not> fless du c"
    and nb: "map_of (adj G) u = Some nbrs"
  shows "dijkstra_inv G start (relaxed c nbrs dists) (remove1 (c, u) pq @ pushed c nbrs dists)"
    and "settled (relaxed c nbrs dists) (remove1 (c, u) pq @ pushed c nbrs dists) = insert u (settled dists pq)"
    and "u \<notin> settled dists pq"
proof -
  define D' where "D' = relaxed c nbrs dists"
  define P where "P = pushed c nbrs dists"
  define Q' where "Q' = remove1 (c, u) pq @ P"
  define W where "W = (\<lambda>v. fadd c (edge_weight G u v))"
  note J = dijkstra_invD [OF inv]
  note J1 = J(1) and J2 = J(2) and J3 = J(3) and J4 = J(4) and J5 = J(5) and J6 = J(6)
    and J7 = J(7) and J8 = J(8)
  note row = adj_row [OF wf nb]
  from J4 [OF cu] du have cfin: "c \<noteq> PInf" and cfl: "is_float c" and "fle du c" by auto
  with ns have cdu: "du = c" by (intro fle_antisym) (auto simp: fle_def)
  have defined: "\<And>v d. map_of nbrs v = Some d \<Longrightarrow> \<exists>dv. dists v = Some dv"
  proof -
    fix v d assume "map_of nbrs v = Some d"
    from row(2) [OF this] have "v \<in> dom dists" unfolding J1 by (simp add: has_node_def nodes_of_def)
    then show "\<exists>dv. dists v = Some dv" by auto
  qed
  have Wfl: "\<And>v d. map_of nbrs v = Some d \<Longrightarrow> W v = fadd c (wt d) \<and> is_float (W v) \<and> fle c (W v)"
    using row(4) fl cfl by (simp add: W_def fadd_is_float fadd_ge)
  \<comment> \<open>the queue entries that are added\<close>
  have P_iff: "\<And>e x. (e, x) \<in> set P \<longleftrightarrow>
      (\<exists>d dx. map_of nbrs x = Some d \<and> dists x = Some dx \<and> fless (W x) dx \<and> e = W x)"
    unfolding P_def pushed_iff [OF row(1)] using Wfl by auto
  have P_new: "\<And>e x. (e, x) \<in> set P \<Longrightarrow> D' x = Some e"
    unfolding P_def D'_def using row(1) by (rule pushed_relaxed)
  have changed: "\<And>x. D' x \<noteq> dists x \<Longrightarrow> \<exists>e. D' x = Some e \<and> (e, x) \<in> set P"
    unfolding P_def D'_def using row(1) by (rule relaxed_changed)
  have down: "\<And>x dx. dists x = Some dx \<Longrightarrow> \<exists>dx'. D' x = Some dx' \<and> fle dx' dx"
    unfolding D'_def by (rule relaxed_decreases)
  have P_float: "\<And>e x. (e, x) \<in> set P \<Longrightarrow> fle c e \<and> is_float e"
  proof -
    fix e x assume "(e, x) \<in> set P"
    then obtain d where m: "map_of nbrs x = Some d" and e: "e = W x" unfolding P_iff by blast
    from Wfl [OF m] have "fle c (W x)" "is_float (W x)" by blast+
    then show "fle c e \<and> is_float e" unfolding e by blast
  qed
  then have P_above: "\<And>e x. (e, x) \<in> set P \<Longrightarrow> fle c e" by blast
  have P_D: "\<And>e x. (e, x) \<in> set P \<Longrightarrow>
      \<exists>d dx. map_of nbrs x = Some d \<and> dists x = Some dx \<and> fless e dx \<and> e = W x"
  proof -
    fix e x assume "(e, x) \<in> set P"
    then obtain d dx where "map_of nbrs x = Some d" "dists x = Some dx" "fless (W x) dx" "e = W x"
      unfolding P_iff by blast
    then show "\<exists>d dx. map_of nbrs x = Some d \<and> dists x = Some dx \<and> fless e dx \<and> e = W x" by blast
  qed
  have keep_settled: "\<And>x. x \<in> settled dists pq \<Longrightarrow> D' x = dists x"
  proof (rule ccontr)
    fix x assume s: "x \<in> settled dists pq" and "D' x \<noteq> dists x"
    from changed [OF this(2)] obtain e where "(e, x) \<in> set P" by blast
    from P_D [OF this] P_above [OF this]
    obtain dx where dx: "dists x = Some dx" and lt: "fless e dx" and ce: "fle c e" by blast
    from J7 [OF s dx cu] ce have "fle dx e" by (rule fle_trans)
    with lt show False by (simp add: fle_def)
  qed
  have keep_u: "D' u = Some c"
  proof (rule ccontr)
    assume "D' u \<noteq> Some c"
    then have "D' u \<noteq> dists u" by (simp add: du cdu)
    from changed [OF this] obtain e where "(e, u) \<in> set P" by blast
    from P_D [OF this] P_above [OF this] have "fless e c" "fle c e" using du cdu by auto
    then show False by (simp add: fle_def)
  qed
  show notin: "u \<notin> settled dists pq" using cu du cdu by (auto simp: settled_def)
  have S': "settled D' Q' = insert u (settled dists pq)"
  proof (intro set_eqI iffI)
    fix x assume "x \<in> settled D' Q'"
    then obtain d where d: "D' x = Some d" "d \<noteq> PInf" "(d, x) \<notin> set Q'" by (auto simp: settled_def)
    have "D' x = dists x"
    proof (rule ccontr)
      assume "D' x \<noteq> dists x"
      from changed [OF this] d(1) have "(d, x) \<in> set P" by auto
      with d(3) show False by (simp add: Q'_def)
    qed
    with d have "dists x = Some d" "(d, x) \<notin> set (remove1 (c, u) pq)" by (simp_all add: Q'_def)
    then have "(d, x) \<notin> set pq \<or> (d, x) = (c, u)" by (metis in_set_remove1)
    with \<open>dists x = Some d\<close> d(2) show "x \<in> insert u (settled dists pq)" by (auto simp: settled_def)
  next
    fix x assume "x \<in> insert u (settled dists pq)"
    then consider "x = u" | "x \<in> settled dists pq" by blast
    then show "x \<in> settled D' Q'"
    proof cases
      case 1
      have "(c, u) \<notin> set (remove1 (c, u) pq)" using J8 by simp
      moreover have "(c, u) \<notin> set P"
      proof
        assume "(c, u) \<in> set P"
        from P_D [OF this] have "fless c c" using du cdu by auto
        then show False by (simp add: fless_irrefl)
      qed
      ultimately show ?thesis using keep_u cfin 1 by (auto simp: settled_def Q'_def)
    next
      case 2
      then obtain d where d: "dists x = Some d" "d \<noteq> PInf" "(d, x) \<notin> set pq" by (auto simp: settled_def)
      have k: "D' x = Some d" using keep_settled [OF 2] d(1) by simp
      have "(d, x) \<notin> set P"
      proof
        assume "(d, x) \<in> set P"
        from P_D [OF this] have "fless d d" using d(1) by auto
        then show False by (simp add: fless_irrefl)
      qed
      moreover have "(d, x) \<notin> set (remove1 (c, u) pq)" using d(3) by (auto dest: notin_set_remove1)
      ultimately show ?thesis using k d(2) by (auto simp: settled_def Q'_def)
    qed
  qed
  then show "settled (relaxed c nbrs dists) (remove1 (c, u) pq @ pushed c nbrs dists) = insert u (settled dists pq)"
    by (simp add: D'_def Q'_def P_def)
  have c1: "dom D' = set (nodes_of G)" unfolding D'_def dom_relaxed J1 ..
  have c2: "D' start = Some (Fin 0)"
  proof (rule ccontr)
    assume "D' start \<noteq> Some (Fin 0)"
    then have "D' start \<noteq> dists start" by (simp add: J2)
    from changed [OF this] obtain e where e: "(e, start) \<in> set P" by blast
    from P_D [OF this] have "fless e (Fin 0)" using J2 by auto
    moreover have "is_float e" using e P_float by blast
    ultimately show False using is_float_not_neg by blast
  qed
  have c3: "\<forall>x d. D' x = Some d \<longrightarrow> is_float d"
  proof (intro allI impI)
    fix x d assume d: "D' x = Some d"
    show "is_float d"
    proof (cases "D' x = dists x")
      case True
      with d J3 show ?thesis by simp
    next
      case False
      from changed [OF this] d have "(d, x) \<in> set P" by auto
      then show ?thesis using P_float by blast
    qed
  qed
  have c4: "\<forall>(d, x) \<in> set Q'. d \<noteq> PInf \<and> is_float d \<and> (\<exists>dx. D' x = Some dx \<and> fle dx d)"
  proof (intro ballI, clarify)
    fix d x assume "(d, x) \<in> set Q'"
    then consider "(d, x) \<in> set pq" | "(d, x) \<in> set P" by (auto simp: Q'_def dest: notin_set_remove1)
    then show "d \<noteq> PInf \<and> is_float d \<and> (\<exists>dx. D' x = Some dx \<and> fle dx d)"
    proof cases
      case 1
      from J4 [OF 1] obtain dx where a: "d \<noteq> PInf" "is_float d" "dists x = Some dx" "fle dx d" by blast
      from down [OF a(3)] obtain dx' where "D' x = Some dx'" "fle dx' dx" by blast
      with a show ?thesis by (blast intro: fle_trans)
    next
      case 2
      from P_D [OF this] P_float [OF this] obtain dx where "fless d dx" "is_float d" by blast
      with P_new [OF 2] show ?thesis by (auto simp: fle_refl dest: fless_finite)
    qed
  qed
  have c5: "\<forall>x d. D' x = Some d \<and> d \<noteq> PInf \<longrightarrow> (\<exists>p. walk_from_to G start x p \<and> walk_cost G p = d)"
  proof (intro allI impI)
    fix x d assume a: "D' x = Some d \<and> d \<noteq> PInf"
    show "\<exists>p. walk_from_to G start x p \<and> walk_cost G p = d"
    proof (cases "D' x = dists x")
      case True
      with a show ?thesis using J5 by auto
    next
      case False
      from changed [OF this] a have "(d, x) \<in> set P" by auto
      from P_D [OF this] obtain dd where m: "map_of nbrs x = Some dd" and dW: "d = W x" by blast
      from J5 [OF du] cdu cfin obtain p where p: "walk_from_to G start u p" "walk_cost G p = c" by auto
      then have ne: "p \<noteq> []" and lst: "last p = u" by (auto simp: walk_from_to_def)
      have e: "edge G u x" using row(3) m by simp
      have "walk_from_to G start x (p @ [x])"
        using p(1) ne e by (simp add: walk_from_to_def is_walk_append_one)
      moreover have "walk_cost G (p @ [x]) = d"
        using ne lst p(2) by (simp add: walk_cost_snoc dW W_def)
      ultimately show ?thesis by blast
    qed
  qed
  have c6: "\<forall>s \<in> settled D' Q'. \<forall>ds. D' s = Some ds \<longrightarrow>
      (\<forall>v. edge G s v \<longrightarrow> (\<exists>dv. D' v = Some dv \<and> fle dv (fadd ds (edge_weight G s v))))"
  proof (intro ballI allI impI)
    fix s ds v assume s: "s \<in> settled D' Q'" and ds: "D' s = Some ds" and e: "edge G s v"
    from s consider "s = u" | "s \<in> settled dists pq" unfolding S' by blast
    then show "\<exists>dv. D' v = Some dv \<and> fle dv (fadd ds (edge_weight G s v))"
    proof cases
      case 1
      with ds keep_u have dsc: "ds = c" by simp
      from e 1 row(3) obtain dd where m: "map_of nbrs v = Some dd" by auto
      from defined [OF m] obtain dv where dv: "dists v = Some dv" ..
      from relaxed_neighbor [of nbrs v dd dists dv c] m dv row(4) [OF m]
      show ?thesis unfolding D'_def dsc 1 by simp
    next
      case 2
      from keep_settled [OF 2] ds have "dists s = Some ds" by simp
      from J6 [OF 2 this e] obtain dv where dv: "dists v = Some dv" "fle dv (fadd ds (edge_weight G s v))"
        by blast
      from down [OF dv(1)] obtain dv' where "D' v = Some dv'" "fle dv' dv" by blast
      with dv(2) show ?thesis by (blast intro: fle_trans)
    qed
  qed
  have c7: "\<forall>s \<in> settled D' Q'. \<forall>ds. D' s = Some ds \<longrightarrow> (\<forall>(d, x) \<in> set Q'. fle ds d)"
  proof (intro ballI allI impI, clarify)
    fix s ds d x assume s: "s \<in> settled D' Q'" and ds: "D' s = Some ds" and q: "(d, x) \<in> set Q'"
    have dsc: "fle ds c"
    proof (cases "s = u")
      case True
      with ds keep_u show ?thesis by (simp add: fle_refl)
    next
      case False
      with s have s': "s \<in> settled dists pq" unfolding S' by simp
      from keep_settled [OF s'] ds have "dists s = Some ds" by simp
      from J7 [OF s' this cu] show ?thesis .
    qed
    from q consider "(d, x) \<in> set pq" | "(d, x) \<in> set P" by (auto simp: Q'_def dest: notin_set_remove1)
    then show "fle ds d"
    proof cases
      case 1
      with least have "fle c d" by auto
      with dsc show ?thesis by (rule fle_trans)
    next
      case 2
      from dsc P_above [OF 2] show ?thesis by (rule fle_trans)
    qed
  qed
  have c8: "distinct Q'"
  proof -
    have "distinct (remove1 (c, u) pq)" using J8 by simp
    moreover have "distinct P" unfolding P_def using row(1) by (rule distinct_pushed)
    moreover have "set (remove1 (c, u) pq) \<inter> set P = {}"
    proof (rule ccontr)
      assume "set (remove1 (c, u) pq) \<inter> set P \<noteq> {}"
      then obtain d x where a: "(d, x) \<in> set pq" and b: "(d, x) \<in> set P"
        by (auto dest: notin_set_remove1)
      from P_D [OF b] obtain dx where dx: "dists x = Some dx" "fless d dx" by blast
      from J4 [OF a] dx(1) have "fle dx d" by auto
      with dx(2) show False by (simp add: fle_def)
    qed
    ultimately show ?thesis by (simp add: Q'_def)
  qed
  have "dijkstra_inv G start D' Q'"
    using c1 c2 c3 c4 c5 c6 c7 c8 by (rule dijkstra_invI)
  then show "dijkstra_inv G start (relaxed c nbrs dists) (remove1 (c, u) pq @ pushed c nbrs dists)"
    by (simp add: D'_def Q'_def P_def)
qed

lemma dijkstra_stale:
  assumes inv: "dijkstra_inv G start dists pq"
    and cu: "(c, u) \<in> set pq"
    and du: "dists u = Some du"
    and st: "fless du c"
  shows "dijkstra_inv G start dists (remove1 (c, u) pq)"
    and "settled dists (remove1 (c, u) pq) = settled dists pq"
proof -
  note J = dijkstra_invD [OF inv]
  have sub: "\<And>e. e \<in> set (remove1 (c, u) pq) \<Longrightarrow> e \<in> set pq"
    using set_remove1_subset [of "(c, u)" pq] by blast
  show S: "settled dists (remove1 (c, u) pq) = settled dists pq"
  proof (intro set_eqI iffI)
    fix x assume "x \<in> settled dists (remove1 (c, u) pq)"
    then obtain d where d: "dists x = Some d" "d \<noteq> PInf" "(d, x) \<notin> set (remove1 (c, u) pq)"
      by (auto simp: settled_def)
    have "(d, x) \<noteq> (c, u)"
    proof
      assume "(d, x) = (c, u)"
      with d(1) du st show False by (simp add: fless_irrefl)
    qed
    with d(3) have "(d, x) \<notin> set pq" by (simp add: in_set_remove1)
    with d show "x \<in> settled dists pq" by (auto simp: settled_def)
  next
    fix x assume "x \<in> settled dists pq"
    then show "x \<in> settled dists (remove1 (c, u) pq)" using sub by (auto simp: settled_def)
  qed
  have c4: "\<forall>(d, x) \<in> set (remove1 (c, u) pq). d \<noteq> PInf \<and> is_float d \<and> (\<exists>dx. dists x = Some dx \<and> fle dx d)"
    using J(4) sub by fast
  have c6: "\<forall>s \<in> settled dists (remove1 (c, u) pq). \<forall>ds. dists s = Some ds \<longrightarrow>
      (\<forall>v. edge G s v \<longrightarrow> (\<exists>dv. dists v = Some dv \<and> fle dv (fadd ds (edge_weight G s v))))"
    unfolding S using J(6) by blast
  have c7: "\<forall>s \<in> settled dists (remove1 (c, u) pq). \<forall>ds. dists s = Some ds \<longrightarrow>
      (\<forall>(d, x) \<in> set (remove1 (c, u) pq). fle ds d)"
    unfolding S using J(7) sub by fast
  have c3: "\<forall>x d. dists x = Some d \<longrightarrow> is_float d" using J(3) by blast
  have c5: "\<forall>x d. dists x = Some d \<and> d \<noteq> PInf \<longrightarrow> (\<exists>p. walk_from_to G start x p \<and> walk_cost G p = d)"
    using J(5) by blast
  have c8: "distinct (remove1 (c, u) pq)" using J(8) by simp
  show "dijkstra_inv G start dists (remove1 (c, u) pq)"
    using J(1) J(2) c3 c4 c5 c6 c7 c8 by (rule dijkstra_invI)
qed

lemma map_of_const:
  "map_of (map (\<lambda>n. (n, c)) ns) x = (if x \<in> set ns then Some c else None)"
  by (induction ns) auto

lemma is_float_zero: "is_float (Fin 0)"
  by (simp add: fround_zero max_float_def)

lemma dijkstra_inv_init:
  assumes "has_node G start"
  shows "dijkstra_inv G start ((map_of (map (\<lambda>n. (n, PInf)) (nodes_of G)))(start \<mapsto> Fin 0)) [(Fin 0, start)]"
proof -
  define D where "D = (map_of (map (\<lambda>n. (n, PInf)) (nodes_of G)))(start \<mapsto> Fin 0)"
  have Dx: "\<And>x. D x = (if x = start then Some (Fin 0) else if x \<in> set (nodes_of G) then Some PInf else None)"
    by (simp add: D_def map_of_const)
  have sn: "start \<in> set (nodes_of G)" using assms by (simp add: has_node_def nodes_of_def)
  have c1: "dom D = set (nodes_of G)" using sn by (auto simp: Dx dom_def)
  have c2: "D start = Some (Fin 0)" by (simp add: Dx)
  have c3: "\<forall>x d. D x = Some d \<longrightarrow> is_float d"
    using is_float_zero by (auto simp: Dx split: if_splits)
  have c4: "\<forall>(d, x) \<in> set [(Fin 0, start)]. d \<noteq> PInf \<and> is_float d \<and> (\<exists>dx. D x = Some dx \<and> fle dx d)"
    using is_float_zero by (simp add: Dx fle_refl)
  have c5: "\<forall>x d. D x = Some d \<and> d \<noteq> PInf \<longrightarrow> (\<exists>p. walk_from_to G start x p \<and> walk_cost G p = d)"
  proof (intro allI impI)
    fix x d assume "D x = Some d \<and> d \<noteq> PInf"
    then have "x = start" "d = Fin 0" by (auto simp: Dx split: if_splits)
    moreover have "walk_from_to G start start [start]" "walk_cost G [start] = Fin 0"
      by (simp_all add: walk_from_to_def walk_cost_def)
    ultimately show "\<exists>p. walk_from_to G start x p \<and> walk_cost G p = d" by blast
  qed
  have S: "settled D [(Fin 0, start)] = {}"
    by (auto simp: settled_def Dx split: if_splits)
  have c6: "\<forall>s \<in> settled D [(Fin 0, start)]. \<forall>ds. D s = Some ds \<longrightarrow>
      (\<forall>v. edge G s v \<longrightarrow> (\<exists>dv. D v = Some dv \<and> fle dv (fadd ds (edge_weight G s v))))"
    unfolding S by simp
  have c7: "\<forall>s \<in> settled D [(Fin 0, start)]. \<forall>ds. D s = Some ds \<longrightarrow>
      (\<forall>(d, x) \<in> set [(Fin 0, start)]. fle ds d)"
    unfolding S by simp
  have c8: "distinct [(Fin 0, start)]" by simp
  show ?thesis unfolding D_def [symmetric] using c1 c2 c3 c4 c5 c6 c7 c8 by (rule dijkstra_invI)
qed

lemma settled_nodes:
  assumes "dijkstra_inv G start dists pq"
  shows "settled dists pq \<subseteq> set (nodes_of G)"
  using dijkstra_invD(1) [OF assms] by (auto simp: settled_def dom_def)

lemma dijkstra_loop_total:
  assumes wf: "wf_graph G"
    and fl: "\<And>u nbrs v d. map_of (adj G) u = Some nbrs \<Longrightarrow> map_of nbrs v = Some d \<Longrightarrow> is_float (wt d)"
    and inv0: "dijkstra_inv G start (fst st) (snd st)"
  shows "\<exists>d. dijkstra_loop G (fst st) (snd st) = Some (Inr d) \<and> dijkstra_inv G start d []"
proof -
  define r where "r = inv_image (less_than <*lex*> less_than)
          (\<lambda>st :: 'a dist \<times> 'a entry list. (card (set (nodes_of G) - settled (fst st) (snd st)), length (snd st)))"
  have wfr: "wf r" unfolding r_def by (intro wf_inv_image wf_lex_prod wf_less_than)
  show ?thesis using inv0
proof (induction st rule: wf_induct_rule [OF wfr])
  case (1 st)
  obtain dists pq where st: "st = (dists, pq)" by (cases st)
  from "1.prems" have inv: "dijkstra_inv G start dists pq" by (simp add: st)
  note J = dijkstra_invD [OF inv]
  show ?case
  proof (cases "pq = []")
    case True
    then show ?thesis using inv by (subst dijkstra_loop.simps) (simp add: st)
  next
    case False
    obtain c u pq' where hp: "heappop pq = ((c, u), pq')" by (metis prod.exhaust)
    from heappop_min [OF False hp] have cu: "(c, u) \<in> set pq" and pq': "pq' = remove1 (c, u) pq"
      and least: "\<forall>e \<in> set pq. fle c (fst e)" by auto
    from J(4) [OF cu] obtain du where du: "dists u = Some du" by blast
    have len: "length pq' < length pq" using cu False by (simp add: pq' length_remove1)
    show ?thesis
    proof (cases "fless du c")
      case True
      from dijkstra_stale [OF inv cu du True]
      have inv': "dijkstra_inv G start dists pq'" and S: "settled dists pq' = settled dists pq"
        by (simp_all add: pq')
      have "((dists, pq'), st) \<in> r"
        using len S by (simp add: st r_def)
      from "1.IH" [OF this] inv'
      obtain d where d: "dijkstra_loop G dists pq' = Some (Inr d)" "dijkstra_inv G start d []" by auto
      have "dijkstra_loop G dists pq = dijkstra_loop G dists pq'"
        using False hp du True by (subst dijkstra_loop.simps) simp
      with d show ?thesis by (simp add: st)
    next
      case ns: False
      have "u \<in> dom dists" using du by auto
      then have "u \<in> set (map fst (adj G))" unfolding J(1) by (simp add: nodes_of_def)
      then obtain nbrs where nb: "map_of (adj G) u = Some nbrs"
        by (cases "map_of (adj G) u") (auto simp: map_of_eq_None_iff)
      note row = adj_row [OF wf nb]
      have "\<And>v d. (v, d) \<in> set nbrs \<Longrightarrow> dists v \<noteq> None"
      proof -
        fix v d assume "(v, d) \<in> set nbrs"
        then have "map_of nbrs v = Some d" using row(1) by simp
        from row(2) [OF this] have "v \<in> dom dists" unfolding J(1) by (simp add: has_node_def nodes_of_def)
        then show "dists v \<noteq> None" by auto
      qed
      then have defined: "\<forall>(v, d) \<in> set nbrs. dists v \<noteq> None" by fast
      have rl: "relax c nbrs (dists, pq') = Inr (relaxed c nbrs dists, pq' @ pushed c nbrs dists)"
        using row(1) defined by (rule relax_eq)
      from dijkstra_expand [OF inv wf fl [OF nb] cu least du ns nb]
      have inv': "dijkstra_inv G start (relaxed c nbrs dists) (pq' @ pushed c nbrs dists)"
        and S: "settled (relaxed c nbrs dists) (pq' @ pushed c nbrs dists) = insert u (settled dists pq)"
        and un: "u \<notin> settled dists pq" by (simp_all add: pq')
      have un': "u \<in> set (nodes_of G)" using du J(1) by auto
      have "set (nodes_of G) - insert u (settled dists pq) \<subset> set (nodes_of G) - settled dists pq"
        using un un' by auto
      then have "card (set (nodes_of G) - insert u (settled dists pq)) < card (set (nodes_of G) - settled dists pq)"
        by (intro psubset_card_mono) auto
      then have "((relaxed c nbrs dists, pq' @ pushed c nbrs dists), st) \<in> r"
        using S by (simp add: st r_def)
      from "1.IH" [OF this] inv'
      obtain d where d: "dijkstra_loop G (relaxed c nbrs dists) (pq' @ pushed c nbrs dists) = Some (Inr d)"
        "dijkstra_inv G start d []" by auto
      have "dijkstra_loop G dists pq = dijkstra_loop G (relaxed c nbrs dists) (pq' @ pushed c nbrs dists)"
        using False hp du ns nb rl by (subst dijkstra_loop.simps) simp
      with d show ?thesis by (simp add: st)
    qed
  qed
qed
qed

lemma edge_entry:
  assumes "edge G u v"
  shows "\<exists>nbrs d. map_of (adj G) u = Some nbrs \<and> map_of nbrs v = Some d \<and>
           (u, nbrs) \<in> set (adj G) \<and> (v, d) \<in> set nbrs \<and> edge_weight G u v = wt d"
proof -
  from assms obtain nbrs where m: "map_of (adj G) u = Some nbrs" and v: "v \<in> set (map fst nbrs)"
    by (auto simp: edge_def split: option.splits)
  from v obtain d where d: "map_of nbrs v = Some d"
    by (cases "map_of nbrs v") (auto simp: map_of_eq_None_iff)
  have "(u, nbrs) \<in> set (adj G)" using m by (rule map_of_SomeD)
  moreover have "(v, d) \<in> set nbrs" using d by (rule map_of_SomeD)
  moreover have "edge_weight G u v = wt d" using m d by (simp add: edge_weight_def)
  ultimately show ?thesis using m d by blast
qed

lemma weights_ok_float:
  assumes "weights_ok G" and "map_of (adj G) u = Some nbrs" and "map_of nbrs v = Some d"
  shows "unit_weight (wt d)"
proof -
  have "(u, nbrs) \<in> set (adj G)" using assms(2) by (rule map_of_SomeD)
  moreover have "(v, d) \<in> set nbrs" using assms(3) by (rule map_of_SomeD)
  ultimately show ?thesis using assms(1) unfolding weights_ok_def by fast
qed

lemma weights_positive_float:
  assumes "weights_positive G" and "map_of (adj G) u = Some nbrs" and "map_of nbrs v = Some d"
  shows "positive_weight (wt d)"
proof -
  have "(u, nbrs) \<in> set (adj G)" using assms(2) by (rule map_of_SomeD)
  moreover have "(v, d) \<in> set nbrs" using assms(3) by (rule map_of_SomeD)
  ultimately show ?thesis using assms(1) unfolding weights_positive_def by fast
qed

lemma edge_weight_is_float:
  assumes "\<And>u nbrs v d. map_of (adj G) u = Some nbrs \<Longrightarrow> map_of nbrs v = Some d \<Longrightarrow> is_float (wt d)"
  shows "is_float (edge_weight G u v)"
  using assms by (auto simp: edge_weight_def split: option.splits)

lemma accumulate_is_float:
  assumes "\<And>u v. is_float (edge_weight G u v)"
  shows "is_float c \<Longrightarrow> is_float (accumulate G c p)"
proof (induction p arbitrary: c)
  case Nil
  then show ?case by simp
next
  case (Cons x xs)
  show ?case
  proof (cases xs)
    case Nil
    then show ?thesis using Cons.prems by simp
  next
    case (Cons y rest)
    have "is_float (fadd c (edge_weight G x y))" using Cons.prems assms by (rule fadd_is_float)
    from Cons.IH [OF this] show ?thesis by (simp add: Cons)
  qed
qed

lemma walk_cost_is_float:
  assumes "\<And>u nbrs v d. map_of (adj G) u = Some nbrs \<Longrightarrow> map_of nbrs v = Some d \<Longrightarrow> is_float (wt d)"
  shows "is_float (walk_cost G p)"
  unfolding walk_cost_def
  by (rule accumulate_is_float [OF edge_weight_is_float [OF assms] is_float_zero])

lemma walk_cost_single: "walk_cost G [x] = Fin 0"
  by (simp add: walk_cost_def)

lemma walk_cost_finite:
  assumes "weights_ok G"
  shows "is_walk G p \<Longrightarrow> walk_cost G p \<noteq> PInf"
proof (induction p rule: rev_induct)
  case Nil
  then show ?case by simp
next
  case (snoc v q)
  show ?case
  proof (cases "q = []")
    case True
    then show ?thesis by (simp add: walk_cost_single)
  next
    case False
    with snoc.prems have w: "is_walk G q" and e: "edge G (last q) v"
      by (simp_all add: is_walk_append_one)
    from edge_entry [OF e] obtain nbrs d where m: "map_of (adj G) (last q) = Some nbrs"
      "map_of nbrs v = Some d" "edge_weight G (last q) v = wt d" by blast
    from weights_ok_float [OF assms m(1,2)] have u: "unit_weight (edge_weight G (last q) v)"
      by (simp add: m(3))
    have fl: "is_float (walk_cost G q)"
      by (rule walk_cost_is_float) (rule unit_weight_is_float, rule weights_ok_float [OF assms])
    from fadd_unit_finite [OF fl snoc.IH [OF w] u] show ?thesis
      using False by (simp add: walk_cost_snoc)
  qed
qed

lemma dijkstra_lower:
  assumes inv: "dijkstra_inv G start d []"
    and wf: "wf_graph G"
    and fl: "\<And>u nbrs v d. map_of (adj G) u = Some nbrs \<Longrightarrow> map_of nbrs v = Some d \<Longrightarrow> is_float (wt d)"
  shows "walk_from_to G start x p \<Longrightarrow> \<exists>dx. d x = Some dx \<and> fle dx (walk_cost G p)"
proof (induction p arbitrary: x rule: rev_induct)
  case Nil
  then show ?case by (simp add: walk_from_to_def)
next
  case (snoc v q)
  note J = dijkstra_invD [OF inv]
  from snoc.prems have xv: "x = v" by (simp add: walk_from_to_def)
  show ?case
  proof (cases "q = []")
    case True
    with snoc.prems have "v = start" by (simp add: walk_from_to_def)
    then show ?thesis using J(2) True xv by (simp add: walk_cost_single fle_refl)
  next
    case False
    with snoc.prems xv have w: "is_walk G q" and e: "edge G (last q) v" and h: "hd q = start"
      by (simp_all add: walk_from_to_def is_walk_append_one)
    then have "walk_from_to G start (last q) q" by (simp add: walk_from_to_def)
    from snoc.IH [OF this] obtain du where du: "d (last q) = Some du" "fle du (walk_cost G q)" by blast
    have cost: "walk_cost G (q @ [v]) = fadd (walk_cost G q) (edge_weight G (last q) v)"
      using False by (rule walk_cost_snoc)
    from edge_has_node [OF wf e] have "v \<in> dom d" unfolding J(1) by (simp add: has_node_def nodes_of_def)
    then obtain dv where dv: "d v = Some dv" by auto
    show ?thesis
    proof (cases "du = PInf")
      case True
      with du(2) have "walk_cost G q = PInf" by (cases "walk_cost G q") (simp_all add: fle_def)
      then show ?thesis using dv xv by (simp add: cost fle_inf)
    next
      case fin: False
      then have s: "last q \<in> settled d []" using du(1) by (simp add: settled_def)
      from J(6) [OF s du(1) e] obtain dv' where dv': "d v = Some dv'"
        "fle dv' (fadd du (edge_weight G (last q) v))" by blast
      have "fle (fadd du (edge_weight G (last q) v)) (fadd (walk_cost G q) (edge_weight G (last q) v))"
        using J(3) [OF du(1)] walk_cost_is_float [OF fl] edge_weight_is_float [OF fl] du(2)
        by (intro fadd_mono) auto
      with dv'(2) have "fle dv' (walk_cost G (q @ [v]))" unfolding cost by (rule fle_trans)
      with dv'(1) xv show ?thesis by simp
    qed
  qed
qed

lemma dijkstra_from_source_done:
  assumes wf: "wf_graph G"
    and fl: "\<And>u nbrs v d. map_of (adj G) u = Some nbrs \<Longrightarrow> map_of nbrs v = Some d \<Longrightarrow> is_float (wt d)"
    and hs: "has_node G start"
  shows "\<exists>d. dijkstra_from_source G start = Some (Inr d) \<and> dijkstra_inv G start d []"
proof -
  define st where "st = ((map_of (map (\<lambda>n. (n, PInf)) (nodes_of G)))(start \<mapsto> Fin 0), [(Fin 0, start)])"
  have "dijkstra_inv G start (fst st) (snd st)" using dijkstra_inv_init [OF hs] by (simp add: st_def)
  with wf fl have "\<exists>d. dijkstra_loop G (fst st) (snd st) = Some (Inr d) \<and> dijkstra_inv G start d []"
    by (rule dijkstra_loop_total)
  then show ?thesis by (simp add: dijkstra_from_source_def st_def)
qed

section \<open>The distances that the shortest-distance loop returns\<close>

lemma weights_ok_is_float:
  assumes "weights_ok G" and "map_of (adj G) u = Some nbrs" and "map_of nbrs v = Some d"
  shows "is_float (wt d)"
  by (rule unit_weight_is_float) (rule weights_ok_float [OF assms])

lemma dijkstra_correct:
  assumes wf: "wf_graph G" and ok: "weights_ok G" and hs: "has_node G start"
  shows "\<exists>d. dijkstra_from_source G start = Some (Inr d) \<and>
           dom d = set (nodes_of G) \<and>
           d start = Some (Fin 0) \<and>
           (\<forall>x. reachable G start x \<longrightarrow>
              (\<exists>p. walk_from_to G start x p \<and> d x = Some (walk_cost G p) \<and> walk_cost G p \<noteq> PInf \<and>
                 (\<forall>q. walk_from_to G start x q \<longrightarrow> fle (walk_cost G p) (walk_cost G q)))) \<and>
           (\<forall>x. has_node G x \<and> \<not> reachable G start x \<longrightarrow> d x = Some PInf)"
proof -
  have fl: "\<And>u nbrs v d. map_of (adj G) u = Some nbrs \<Longrightarrow> map_of nbrs v = Some d \<Longrightarrow> is_float (wt d)"
    by (rule weights_ok_is_float [OF ok])
  from wf fl hs have "\<exists>d. dijkstra_from_source G start = Some (Inr d) \<and> dijkstra_inv G start d []"
    by (rule dijkstra_from_source_done)
  then obtain d
    where run: "dijkstra_from_source G start = Some (Inr d)" and inv: "dijkstra_inv G start d []"
    by blast
  have lower: "\<exists>dx. d x = Some dx \<and> fle dx (walk_cost G p)" if "walk_from_to G start x p" for x p
    using inv wf fl that by (rule dijkstra_lower)
  note J = dijkstra_invD [OF inv]
  have reach: "\<exists>p. walk_from_to G start x p \<and> d x = Some (walk_cost G p) \<and> walk_cost G p \<noteq> PInf \<and>
                 (\<forall>q. walk_from_to G start x q \<longrightarrow> fle (walk_cost G p) (walk_cost G q))"
    if r: "reachable G start x" for x
  proof -
    from r obtain q0 where q0: "walk_from_to G start x q0" by (auto simp: reachable_def)
    from lower [OF q0] obtain dx where dx: "d x = Some dx" "fle dx (walk_cost G q0)"
      by blast
    from q0 have "is_walk G q0" by (simp add: walk_from_to_def)
    from walk_cost_finite [OF ok this] dx(2) have fin: "dx \<noteq> PInf" by (rule fle_finite [rotated])
    from J(5) [OF dx(1) fin] obtain p where p: "walk_from_to G start x p" "walk_cost G p = dx" by blast
    have "fle (walk_cost G p) (walk_cost G q)" if q: "walk_from_to G start x q" for q
      using lower [OF q] dx(1) p(2) by auto
    with p dx(1) fin show ?thesis by auto
  qed
  have unreach: "d x = Some PInf" if h: "has_node G x" and n: "\<not> reachable G start x" for x
  proof -
    from h have "x \<in> dom d" unfolding J(1) by (simp add: has_node_def nodes_of_def)
    then obtain dx where dx: "d x = Some dx" by auto
    have "dx = PInf"
    proof (rule ccontr)
      assume "dx \<noteq> PInf"
      from J(5) [OF dx this] n show False by (auto simp: reachable_def)
    qed
    with dx show ?thesis by simp
  qed
  from run J(1) J(2) reach unreach show ?thesis by blast
qed

lemma fadd_eval:
  assumes "0 < a + b" and "pow2 e \<le> a + b" and "a + b < pow2 (e + 1)"
    and "of_int (rhe ((a + b) / pow2 (max (e - 52) (- 1074)))) * pow2 (max (e - 52) (- 1074)) = r"
    and "r \<le> max_float"
  shows "fadd (Fin a) (Fin b) = Fin r"
  using fround_eval [OF assms(1-3)] assms(4,5) by (simp add: to_float_def Let_def)

lemma fadd_zero_one: "fadd (Fin 0) (Fin 1) = Fin 1"
  by (rule fadd_eval [where e = 0]) (simp_all add: pow2_def rhe_numeral rhe_numeral_div max_float_def)

lemma fadd_one_one: "fadd (Fin 1) (Fin 1) = Fin 2"
  by (rule fadd_eval [where e = 1]) (simp_all add: pow2_def rhe_numeral rhe_numeral_div max_float_def)

lemma fadd_two_one: "fadd (Fin 2) (Fin 1) = Fin 3"
  by (rule fadd_eval [where e = 1]) (simp_all add: pow2_def rhe_numeral rhe_numeral_div max_float_def)

lemma fadd_zero_third:
  "fadd (Fin 0) (Fin (6004799503160661 / 18014398509481984)) = Fin (6004799503160661 / 18014398509481984)"
  by (rule fadd_eval [where e = "- 2"]) (simp_all add: pow2_def rhe_numeral rhe_numeral_div max_float_def)

lemma fadd_two_third:
  "fadd (Fin 2) (Fin (6004799503160661 / 18014398509481984)) = Fin (5254199565265579 / 2251799813685248)"
  by (rule fadd_eval [where e = 1]) (simp_all add: pow2_def rhe_numeral rhe_numeral_div max_float_def)

lemma fadd_far_third:
  "fadd (Fin (5254199565265579 / 2251799813685248)) (Fin (6004799503160661 / 18014398509481984)) =
     Fin (3002399751580331 / 1125899906842624)"
  by (rule fadd_eval [where e = 1]) (simp_all add: pow2_def rhe_numeral rhe_numeral_div max_float_def)

lemma fadd_third_one:
  "fadd (Fin (6004799503160661 / 18014398509481984)) (Fin 1) = Fin (6004799503160661 / 4503599627370496)"
  by (rule fadd_eval [where e = 0]) (simp_all add: pow2_def rhe_numeral rhe_numeral_div max_float_def)

lemma fadd_third_third:
  "fadd (Fin (6004799503160661 / 18014398509481984)) (Fin (6004799503160661 / 18014398509481984)) =
     Fin (6004799503160661 / 9007199254740992)"
  by (rule fadd_eval [where e = "- 1"]) (simp_all add: pow2_def rhe_numeral rhe_numeral_div max_float_def)

lemma fadd_four_thirds_one:
  "fadd (Fin (6004799503160661 / 4503599627370496)) (Fin 1) = Fin (2627099782632789 / 1125899906842624)"
  by (rule fadd_eval [where e = 1]) (simp_all add: pow2_def rhe_numeral rhe_numeral_div max_float_def)

lemma fadd_seven_thirds_one:
  "fadd (Fin (2627099782632789 / 1125899906842624)) (Fin 1) = Fin (3752999689475413 / 1125899906842624)"
  by (rule fadd_eval [where e = 1]) (simp_all add: pow2_def rhe_numeral rhe_numeral_div max_float_def)

lemmas fadd_line = fadd_zero_one fadd_one_one fadd_two_one fadd_zero_third fadd_two_third fadd_far_third
  fadd_third_one fadd_third_third fadd_four_thirds_one fadd_seven_thirds_one

lemma line_from_a:
  "distance_of (dijkstra_from_source line_weighted ''A'') ''D'' = Some (Fin (5254199565265579 / 2251799813685248))"
  by (simp add: distance_of_def dijkstra_from_source_def line_weighted_def nodes_of_def
      dijkstra_loop.simps heappop_def heappush_def Let_def fadd_line del: fadd.simps)

lemma line_from_d:
  "distance_of (dijkstra_from_source line_weighted ''D'') ''A'' = Some (Fin (2627099782632789 / 1125899906842624))"
  by (simp add: distance_of_def dijkstra_from_source_def line_weighted_def nodes_of_def
      dijkstra_loop.simps heappop_def heappush_def Let_def fadd_line del: fadd.simps)

lemma fround_third_exact: "fround (6004799503160661 / 18014398509481984) = 6004799503160661 / 18014398509481984"
  using fround_idem [of "1 / 3"] by (simp add: fround_third)

lemma float_of_int_three: "float_of_int 3 = Inr (Fin 3)"
  by (simp add: float_of_int_def fround_three Let_def max_float_def)

lemma to_float_third: "to_float (1 / 3) = Fin (6004799503160661 / 18014398509481984)"
  by (simp add: to_float_def fround_third Let_def max_float_def)

lemma line_graph_eq: "line_graph = Inr line_weighted"
  by (simp add: line_graph_def line_weighted_def add_edge_weights_def add_edges_from_def add_edge_def
      ensure_node_def set_adj_def has_node_def empty_graph_def mk_edge_def set_weight_def
      float_of_int_one to_float_one float_of_int_three to_float_third)

lemma line_weighted_wf: "wf_graph line_weighted"
  by (simp add: wf_graph_def line_weighted_def)

lemma line_weighted_ok: "weights_ok line_weighted"
  by (simp add: weights_ok_def line_weighted_def wt_def fround_one fround_third_exact)

lemma line_weighted_nodes: "nodes_of line_weighted = [''A'', ''B'', ''C'', ''D'']"
  by (simp add: nodes_of_def line_weighted_def)

lemma line_walk_cost:
  "walk_cost line_weighted [''A'', ''B'', ''C'', ''D''] = Fin (5254199565265579 / 2251799813685248)"
  by (simp add: walk_cost_def edge_weight_def wt_def line_weighted_def fadd_line del: fadd.simps)

lemma line_walk: "walk_from_to line_weighted ''A'' ''D'' [''A'', ''B'', ''C'', ''D'']"
  by (simp add: walk_from_to_def edge_def line_weighted_def)

lemma fround_heavy: "fround (2 ^ 1023) = 2 ^ 1023"
  by (subst fround_eval [where e = 1023]) (simp_all add: pow2_def rhe_numeral rhe_numeral_div)

lemma fround_heavy_twice: "fround (2 ^ 1024) = 2 ^ 1024"
  by (subst fround_eval [where e = 1024]) (simp_all add: pow2_def rhe_numeral rhe_numeral_div)

lemma fadd_zero_heavy: "fadd (Fin 0) heavy_weight = heavy_weight"
  using fround_heavy by (simp add: heavy_weight_def to_float_def Let_def max_float_def)

lemma fadd_heavy_heavy: "fadd heavy_weight heavy_weight = PInf"
  using fround_heavy_twice by (simp add: heavy_weight_def to_float_def Let_def max_float_def)

lemma heavy_weight_positive: "positive_weight heavy_weight"
  using fround_heavy by (simp add: heavy_weight_def max_float_def)

lemma heavy_weight_less: "fless heavy_weight PInf" "\<not> fless heavy_weight heavy_weight"
  by (simp_all add: heavy_weight_def)

lemma heavy_graph_eq:
  "heavy_graph =
     \<lparr>node = [(''A'', None), (''B'', None), (''C'', None)],
      adj = [(''A'', [(''B'', heavy_edge)]),
             (''B'', [(''A'', heavy_edge), (''C'', heavy_edge)]),
             (''C'', [(''B'', heavy_edge)])]\<rparr>"
  by (simp add: heavy_graph_def add_edges_from_def add_edge_def ensure_node_def set_adj_def
      has_node_def empty_graph_def)

lemma heavy_graph_wf: "wf_graph heavy_graph"
  by (simp add: wf_graph_def heavy_graph_eq)

lemma heavy_graph_positive: "weights_positive heavy_graph"
  by (simp add: weights_positive_def heavy_graph_eq wt_def heavy_edge_def heavy_weight_positive)

lemma heavy_walk: "walk_from_to heavy_graph ''A'' ''C'' [''A'', ''B'', ''C'']"
  by (simp add: walk_from_to_def edge_def heavy_graph_eq)

lemma heavy_from_a: "distance_of (dijkstra_from_source heavy_graph ''A'') ''C'' = Some PInf"
  by (simp add: distance_of_def dijkstra_from_source_def heavy_graph_eq heavy_edge_def nodes_of_def
      dijkstra_loop.simps heappop_def heappush_def Let_def fadd_zero_heavy fadd_heavy_heavy
      heavy_weight_less del: fadd.simps)

text \<open>
  C2, as the script behaves. The graph \<open>heavy_graph\<close> has positive weights, \<open>A\<close> is a node
  of it and \<open>C\<close> is reached from \<open>A\<close> by the walk \<open>A\<close>, \<open>B\<close>, \<open>C\<close>; yet the run from \<open>A\<close>
  leaves \<open>C\<close> at \<open>+infinity\<close>, because the float sum \<open>2 ^ 1023 + 2 ^ 1023\<close> overflows to
  infinity, which is not below the infinity that \<open>dist[C]\<close> starts with.
\<close>

theorem dijkstra_shortest_counterexample:
  "wf_graph heavy_graph \<and> weights_positive heavy_graph \<and> has_node heavy_graph ''A'' \<and>
   walk_from_to heavy_graph ''A'' ''C'' [''A'', ''B'', ''C''] \<and>
   distance_of (dijkstra_from_source heavy_graph ''A'') ''C'' = Some PInf"
  using heavy_graph_wf heavy_graph_positive heavy_walk heavy_from_a
  by (simp add: has_node_def heavy_graph_eq)

text \<open>
  C2, amended. For every graph as networkx builds it whose weights are as
  \<open>add_edge_weights\<close> derives them (positive floats that are at most \<open>1.0\<close>), and every node
  \<open>start\<close> of it: \<open>dijkstra_from_source\<close> returns, without an error, a dictionary over the
  nodes of the graph in which \<open>start\<close> has the distance \<open>0.0\<close>; a node that is reachable
  from \<open>start\<close> has a finite distance, which is the weight of a walk from \<open>start\<close> to it and
  is at most the weight of every such walk, the weight of a walk being summed in float
  arithmetic edge by edge from \<open>start\<close> on; and a node that is not reachable has
  \<open>+infinity\<close>.
\<close>

theorem dijkstra_shortest:
  assumes "wf_graph G" and "weights_ok G" and "has_node G start"
  shows "\<exists>d. dijkstra_from_source G start = Some (Inr d) \<and>
           dom d = set (nodes_of G) \<and>
           d start = Some (Fin 0) \<and>
           (\<forall>x. reachable G start x \<longrightarrow>
              (\<exists>p. walk_from_to G start x p \<and> d x = Some (walk_cost G p) \<and> walk_cost G p \<noteq> PInf \<and>
                 (\<forall>q. walk_from_to G start x q \<longrightarrow> fle (walk_cost G p) (walk_cost G q)))) \<and>
           (\<forall>x. has_node G x \<and> \<not> reachable G start x \<longrightarrow> d x = Some PInf)"
  using assms by (rule dijkstra_correct)

theorem dijkstra_shortest_witness:
  "line_graph = Inr line_weighted \<and>
   wf_graph line_weighted \<and> weights_ok line_weighted \<and> has_node line_weighted ''A'' \<and>
   distance_of (dijkstra_from_source line_weighted ''A'') ''A'' = Some (Fin 0) \<and>
   walk_from_to line_weighted ''A'' ''D'' [''A'', ''B'', ''C'', ''D''] \<and>
   distance_of (dijkstra_from_source line_weighted ''A'') ''D'' =
     Some (walk_cost line_weighted [''A'', ''B'', ''C'', ''D'']) \<and>
   walk_cost line_weighted [''A'', ''B'', ''C'', ''D''] = Fin (5254199565265579 / 2251799813685248)"
proof -
  have h: "has_node line_weighted ''A''" by (simp add: has_node_def line_weighted_def)
  from dijkstra_shortest [OF line_weighted_wf line_weighted_ok h]
  have "distance_of (dijkstra_from_source line_weighted ''A'') ''A'' = Some (Fin 0)"
    by (auto simp: distance_of_def)
  then show ?thesis
    using h line_graph_eq line_weighted_wf line_weighted_ok line_walk line_from_a line_walk_cost
    by simp
qed

lemma edge_sym:
  assumes "wf_graph G" and "edge G u v"
  shows "edge G v u"
proof -
  from edge_entry [OF assms(2)] obtain nbrs d
    where m: "(u, nbrs) \<in> set (adj G)" "(v, d) \<in> set nbrs" by blast
  from assms(1) m have "case map_of (adj G) v of None \<Rightarrow> False | Some nbrs' \<Rightarrow> map_of nbrs' u = Some d"
    unfolding wf_graph_def by fast
  then obtain nbrs' where n: "map_of (adj G) v = Some nbrs'" "map_of nbrs' u = Some d"
    by (auto split: option.splits)
  from n(2) have "(u, d) \<in> set nbrs'" by (rule map_of_SomeD)
  then have "u \<in> set (map fst nbrs')" by force
  with n(1) show ?thesis by (simp add: edge_def)
qed

lemma is_walk_rev:
  assumes "wf_graph G"
  shows "is_walk G p \<Longrightarrow> is_walk G (rev p)"
proof (induction p)
  case Nil
  then show ?case by simp
next
  case (Cons x xs)
  show ?case
  proof (cases xs)
    case Nil
    then show ?thesis by simp
  next
    case (Cons y rest)
    with Cons.prems have e: "edge G x y" and w: "is_walk G xs" by simp_all
    from Cons.IH [OF w] have r: "is_walk G (rev xs)" .
    have "last (rev xs) = y" using Cons by simp
    with edge_sym [OF assms e] have "edge G (last (rev xs)) x" by simp
    from is_walk_snoc [OF r this] show ?thesis by simp
  qed
qed

lemma is_walk_nonempty: "is_walk G p \<Longrightarrow> p \<noteq> []"
  by (cases p) simp_all

lemma walk_from_to_rev:
  assumes "wf_graph G" and "walk_from_to G a b p"
  shows "walk_from_to G b a (rev p)"
proof -
  from assms(2) have w: "is_walk G p" and h: "hd p = a" and l: "last p = b"
    by (simp_all add: walk_from_to_def)
  from is_walk_nonempty [OF w] have "hd (rev p) = last p" "last (rev p) = hd p"
    by (simp_all add: hd_rev last_rev)
  with is_walk_rev [OF assms(1) w] h l show ?thesis by (simp add: walk_from_to_def)
qed

lemma reachable_sym:
  assumes "wf_graph G"
  shows "reachable G a b \<longleftrightarrow> reachable G b a"
  using walk_from_to_rev [OF assms] unfolding reachable_def by blast

lemma all_pairs_from_total:
  assumes "\<And>s. s \<in> set ns \<Longrightarrow> \<exists>d. dijkstra_from_source G s = Some (Inr d)"
  shows "\<exists>table. all_pairs_from G ns = Some (Inr table) \<and> map fst table = ns \<and>
           (\<forall>(s, d) \<in> set table. dijkstra_from_source G s = Some (Inr d))"
  using assms
proof (induction ns)
  case Nil
  then show ?case by simp
next
  case (Cons s ns)
  from Cons.prems obtain d where d: "dijkstra_from_source G s = Some (Inr d)" by auto
  from Cons.prems have "\<And>s. s \<in> set ns \<Longrightarrow> \<exists>d. dijkstra_from_source G s = Some (Inr d)" by simp
  from Cons.IH [OF this] obtain table where t: "all_pairs_from G ns = Some (Inr table)"
    "map fst table = ns" "\<forall>(s, d) \<in> set table. dijkstra_from_source G s = Some (Inr d)" by blast
  show ?case using d t by (intro exI [of _ "(s, d) # table"]) simp
qed

lemma table_lookup_run:
  assumes "map fst table = ns"
    and "\<forall>(s, d) \<in> set table. dijkstra_from_source G s = Some (Inr d)"
    and "a \<in> set ns"
  shows "table_lookup (Some (Inr table)) a b = distance_of (dijkstra_from_source G a) b"
proof -
  from assms(1,3) have "a \<in> fst ` set table" by force
  then obtain d where d: "map_of table a = Some d"
    by (cases "map_of table a") (auto simp: map_of_eq_None_iff)
  from d have "(a, d) \<in> set table" by (rule map_of_SomeD)
  with assms(2) have "dijkstra_from_source G a = Some (Inr d)" by fast
  with d show ?thesis by (simp add: table_lookup_def distance_of_def)
qed

lemma distance_of_run:
  assumes wf: "wf_graph G" and ok: "weights_ok G" and a: "has_node G a" and b: "has_node G b"
  shows "distance_of (dijkstra_from_source G a) a = Some (Fin 0) \<and>
         (\<exists>x. distance_of (dijkstra_from_source G a) b = Some x \<and>
              (x = PInf \<longleftrightarrow> \<not> reachable G a b) \<and>
              (\<forall>p. walk_from_to G a b p \<longrightarrow> fle x (walk_cost G p)))"
proof -
  from dijkstra_correct [OF wf ok a] obtain d where run: "dijkstra_from_source G a = Some (Inr d)"
    and z: "d a = Some (Fin 0)"
    and r: "\<And>x. reachable G a x \<Longrightarrow>
              \<exists>p. walk_from_to G a x p \<and> d x = Some (walk_cost G p) \<and> walk_cost G p \<noteq> PInf \<and>
                 (\<forall>q. walk_from_to G a x q \<longrightarrow> fle (walk_cost G p) (walk_cost G q))"
    and u: "\<And>x. has_node G x \<Longrightarrow> \<not> reachable G a x \<Longrightarrow> d x = Some PInf"
    by blast
  have "\<exists>x. d b = Some x \<and> (x = PInf \<longleftrightarrow> \<not> reachable G a b) \<and>
              (\<forall>p. walk_from_to G a b p \<longrightarrow> fle x (walk_cost G p))"
  proof (cases "reachable G a b")
    case True
    from r [OF True] show ?thesis using True by auto
  next
    case False
    from u [OF b False] show ?thesis using False by (simp add: fle_def reachable_def)
  qed
  with run z show ?thesis by (simp add: distance_of_def)
qed

lemma all_pairs_correct:
  assumes wf: "wf_graph G" and ok: "weights_ok G"
  shows "(\<exists>table. all_pairs_shortest_distances G = Some (Inr table) \<and> map fst table = nodes_of G) \<and>
         (\<forall>a b. has_node G a \<longrightarrow>
            table_lookup (all_pairs_shortest_distances G) a b = distance_of (dijkstra_from_source G a) b) \<and>
         (\<forall>a. has_node G a \<longrightarrow> table_lookup (all_pairs_shortest_distances G) a a = Some (Fin 0)) \<and>
         (\<forall>a b. has_node G a \<and> has_node G b \<longrightarrow>
            (\<exists>x y. table_lookup (all_pairs_shortest_distances G) a b = Some x \<and>
                   table_lookup (all_pairs_shortest_distances G) b a = Some y \<and>
                   (x = PInf \<longleftrightarrow> \<not> reachable G a b) \<and>
                   (x = PInf \<longleftrightarrow> y = PInf) \<and>
                   (\<forall>p. walk_from_to G a b p \<longrightarrow>
                      fle x (walk_cost G p) \<and> fle y (walk_cost G (rev p)))))"
proof -
  have runs: "\<exists>d. dijkstra_from_source G s = Some (Inr d)" if "s \<in> set (nodes_of G)" for s
  proof -
    from that have "has_node G s" by (simp add: has_node_def nodes_of_def)
    from dijkstra_correct [OF wf ok this] show ?thesis by blast
  qed
  from all_pairs_from_total [of "nodes_of G" G, OF runs] obtain table
    where t: "all_pairs_from G (nodes_of G) = Some (Inr table)" "map fst table = nodes_of G"
      "\<forall>(s, d) \<in> set table. dijkstra_from_source G s = Some (Inr d)" by blast
  have aps: "all_pairs_shortest_distances G = Some (Inr table)"
    using t(1) by (simp add: all_pairs_shortest_distances_def)
  have look: "table_lookup (all_pairs_shortest_distances G) a b = distance_of (dijkstra_from_source G a) b"
    if "has_node G a" for a b
  proof -
    from that have "a \<in> set (nodes_of G)" by (simp add: has_node_def nodes_of_def)
    from table_lookup_run [OF t(2,3) this] show ?thesis by (simp add: aps)
  qed
  have diag: "table_lookup (all_pairs_shortest_distances G) a a = Some (Fin 0)" if "has_node G a" for a
    using distance_of_run [OF wf ok that that] look [OF that] by simp
  have pair: "\<exists>x y. table_lookup (all_pairs_shortest_distances G) a b = Some x \<and>
                   table_lookup (all_pairs_shortest_distances G) b a = Some y \<and>
                   (x = PInf \<longleftrightarrow> \<not> reachable G a b) \<and>
                   (x = PInf \<longleftrightarrow> y = PInf) \<and>
                   (\<forall>p. walk_from_to G a b p \<longrightarrow>
                      fle x (walk_cost G p) \<and> fle y (walk_cost G (rev p)))"
    if a: "has_node G a" and b: "has_node G b" for a b
  proof -
    from distance_of_run [OF wf ok a b] obtain x
      where x: "distance_of (dijkstra_from_source G a) b = Some x"
        "x = PInf \<longleftrightarrow> \<not> reachable G a b"
        "\<And>p. walk_from_to G a b p \<Longrightarrow> fle x (walk_cost G p)" by blast
    from distance_of_run [OF wf ok b a] obtain y
      where y: "distance_of (dijkstra_from_source G b) a = Some y"
        "y = PInf \<longleftrightarrow> \<not> reachable G b a"
        "\<And>p. walk_from_to G b a p \<Longrightarrow> fle y (walk_cost G p)" by blast
    have "fle y (walk_cost G (rev p))" if "walk_from_to G a b p" for p
      using y(3) [OF walk_from_to_rev [OF wf that]] .
    moreover have "x = PInf \<longleftrightarrow> y = PInf" using x(2) y(2) reachable_sym [OF wf, of a b] by simp
    ultimately show ?thesis using x y(1) look [OF a] look [OF b] by auto
  qed
  from aps t(2) look diag pair show ?thesis by blast
qed

lemma line_table_a_d:
  "table_lookup (all_pairs_shortest_distances line_weighted) ''A'' ''D'' =
     Some (Fin (5254199565265579 / 2251799813685248))"
proof -
  have "has_node line_weighted ''A''" by (simp add: has_node_def line_weighted_def)
  with all_pairs_correct [OF line_weighted_wf line_weighted_ok] line_from_a show ?thesis by simp
qed

lemma line_table_d_a:
  "table_lookup (all_pairs_shortest_distances line_weighted) ''D'' ''A'' =
     Some (Fin (2627099782632789 / 1125899906842624))"
proof -
  have "has_node line_weighted ''D''" by (simp add: has_node_def line_weighted_def)
  with all_pairs_correct [OF line_weighted_wf line_weighted_ok] line_from_d show ?thesis by simp
qed

text \<open>
  C3, as the script behaves. In the graph loaded from the row \<open>A\<close>, \<open>B\<close>, \<open>C\<close>, \<open>D\<close> with the
  speeds 1, 1 and 3 the table is not symmetric: \<open>dist[A][D]\<close> is \<open>(1.0 + 1.0) + 1.0 / 3\<close>,
  which rounds to \<open>2.3333333333333335\<close>, and \<open>dist[D][A]\<close> is \<open>(1.0 / 3 + 1.0) + 1.0\<close>,
  which rounds to \<open>2.333333333333333\<close>.
\<close>

theorem all_pairs_symmetric_counterexample:
  "line_graph = Inr line_weighted \<and> wf_graph line_weighted \<and>
   table_lookup (all_pairs_shortest_distances line_weighted) ''A'' ''D'' =
     Some (Fin (5254199565265579 / 2251799813685248)) \<and>
   table_lookup (all_pairs_shortest_distances line_weighted) ''D'' ''A'' =
     Some (Fin (2627099782632789 / 1125899906842624)) \<and>
   table_lookup (all_pairs_shortest_distances line_weighted) ''A'' ''D'' \<noteq>
     table_lookup (all_pairs_shortest_distances line_weighted) ''D'' ''A''"
  using line_graph_eq line_weighted_wf line_table_a_d line_table_d_a by simp

text \<open>
  C3, amended. For every graph as networkx builds it whose weights are as
  \<open>add_edge_weights\<close> derives them: \<open>all_pairs_shortest_distances\<close> returns, without an
  error, a table with one row per node, the row of \<open>a\<close> being the result of
  \<open>dijkstra_from_source\<close> for \<open>a\<close>; its diagonal is all zeros; and for all nodes \<open>a\<close>, \<open>b\<close>
  the entry \<open>dist[a][b]\<close> is \<open>+infinity\<close> exactly when \<open>dist[b][a]\<close> is, namely when \<open>b\<close> is not
  reachable from \<open>a\<close>. Two finite entries \<open>dist[a][b]\<close> and \<open>dist[b][a]\<close> need not be equal:
  the first is at most the weight of every walk from \<open>a\<close> to \<open>b\<close> summed in float arithmetic
  from \<open>a\<close> on, the second at most the weight of the same walk summed from \<open>b\<close> on.
\<close>

theorem all_pairs_table:
  assumes "wf_graph G" and "weights_ok G"
  shows "(\<exists>table. all_pairs_shortest_distances G = Some (Inr table) \<and> map fst table = nodes_of G) \<and>
         (\<forall>a b. has_node G a \<longrightarrow>
            table_lookup (all_pairs_shortest_distances G) a b = distance_of (dijkstra_from_source G a) b) \<and>
         (\<forall>a. has_node G a \<longrightarrow> table_lookup (all_pairs_shortest_distances G) a a = Some (Fin 0)) \<and>
         (\<forall>a b. has_node G a \<and> has_node G b \<longrightarrow>
            (\<exists>x y. table_lookup (all_pairs_shortest_distances G) a b = Some x \<and>
                   table_lookup (all_pairs_shortest_distances G) b a = Some y \<and>
                   (x = PInf \<longleftrightarrow> \<not> reachable G a b) \<and>
                   (x = PInf \<longleftrightarrow> y = PInf) \<and>
                   (\<forall>p. walk_from_to G a b p \<longrightarrow>
                      fle x (walk_cost G p) \<and> fle y (walk_cost G (rev p)))))"
  using assms by (rule all_pairs_correct)

theorem all_pairs_table_witness:
  "wf_graph line_weighted \<and> weights_ok line_weighted \<and> has_node line_weighted ''B'' \<and>
   table_lookup (all_pairs_shortest_distances line_weighted) ''B'' ''B'' = Some (Fin 0) \<and>
   table_lookup (all_pairs_shortest_distances line_weighted) ''B'' ''D'' =
     distance_of (dijkstra_from_source line_weighted ''B'') ''D''"
proof -
  have h: "has_node line_weighted ''B''" by (simp add: has_node_def line_weighted_def)
  note table = all_pairs_table [OF line_weighted_wf line_weighted_ok]
  from table h have d: "table_lookup (all_pairs_shortest_distances line_weighted) ''B'' ''B'' = Some (Fin 0)"
    by blast
  from table h have l: "table_lookup (all_pairs_shortest_distances line_weighted) ''B'' ''D'' =
      distance_of (dijkstra_from_source line_weighted ''B'') ''D''"
    by blast
  from line_weighted_wf line_weighted_ok h d l show ?thesis by blast
qed

end
